theory Spec2Isabelle
  imports Main "HOL-Library.Word"
begin

unbundle bit_operations_syntax

section \<open>Mutex of lock\_sema.c as an interleaving of atomic steps\<close>

text \<open>
  The file \<^verbatim>\<open>src/pkg/runtime/lock_sema.c\<close> implements \<^verbatim>\<open>runtime.lock\<close> and
  \<^verbatim>\<open>runtime.unlock\<close> over one pointer-sized word \<^verbatim>\<open>l->key\<close>: bit 0 is the
  LOCKED flag, the other bits point to the first M of a list of waiting Ms chained through
  \<^verbatim>\<open>m->nextwaitm\<close>.  Every access to shared memory (\<^verbatim>\<open>casp\<close>, \<^verbatim>\<open>atomicloadp\<close>, a read
  or write of \<^verbatim>\<open>nextwaitm\<close>, \<^verbatim>\<open>semasleep\<close>, \<^verbatim>\<open>semawakeup\<close>) is one atomic step
  of the calling thread; a scheduler interleaves the steps of the threads.  A thread is
  named by the address of its M (the value \<^verbatim>\<open>g->m\<close>).
\<close>

type_synonym uintptr = "64 word"
type_synonym uint32 = "32 word"
type_synonym int32 = "32 word"
type_synonym M = uintptr

text \<open>The enum of lines 27-34.\<close>

definition LOCKED :: uintptr where
  "LOCKED = 1"

definition ACTIVE_SPIN :: uint32 where
  "ACTIVE_SPIN = 4"

definition ACTIVE_SPIN_CNT :: nat where
  "ACTIVE_SPIN_CNT = 30"

definition PASSIVE_SPIN :: uint32 where
  "PASSIVE_SPIN = 1"

text \<open>
  The messages of the two throws (lines 43 and 116).  The source writes the middle dot
  U+00B7 between \<open>runtime\<close> and the routine's name; its UTF-8 bytes are C2 B7.
\<close>

definition middot :: string where
  "middot = [CHR 0xC2, CHR 0xB7]"

definition lock_count_msg :: string where
  "lock_count_msg = ''runtime'' @ middot @ ''lock: lock count''"

definition unlock_count_msg :: string where
  "unlock_count_msg = ''runtime'' @ middot @ ''unlock: lock count''"

text \<open>
  Calls of the external routines and the successful compare-and-swaps on the key, in the
  order in which they happen (newest first).  No step reads the history.
\<close>

datatype event =
    EvProcYield M nat
  | EvOsYield M
  | EvSemaWakeup M M
  | EvAcquire M
  | EvPush M
  | EvRelease M
  | EvPop M M

text \<open>
  Program points.  \<open>L_\<close> points are in \<^verbatim>\<open>runtime.lock\<close>, \<open>U_\<close> points in
  \<^verbatim>\<open>runtime.unlock\<close>; \<open>W_\<close> points belong to the worker that calls them.
\<close>

datatype mpc =
    W_IDLE
  | L_ENTER
  | L_FAST
  | L_SEMA
  | L_LOAD
  | L_ACQ
  | L_SPIN
  | L_SETNEXT
  | L_PUSH
  | L_RELOAD
  | L_SLEEP
  | L_NEXT
  | L_RET
  | W_WRITE
  | U_LOAD
  | U_CAS0
  | U_READNEXT
  | U_CAS
  | U_WAKE
  | U_DEC
  | U_RET
  | W_DONE
  | THROWN string
  | FAULT

record msys =
  key :: uintptr
  nextwaitm :: "M \<Rightarrow> uintptr"
  sema :: "M \<Rightarrow> nat"
  waitsema :: "M \<Rightarrow> uintptr"
  locks :: "M \<Rightarrow> int32"
  preempt :: "M \<Rightarrow> bool"
  stackguard0 :: "M \<Rightarrow> uintptr"
  ncpu :: int32
  StackPreempt :: uintptr
  pc :: "M \<Rightarrow> mpc"
  lv :: "M \<Rightarrow> uintptr"
  li :: "M \<Rightarrow> uint32"
  lspin :: "M \<Rightarrow> uint32"
  ump :: "M \<Rightarrow> uintptr"
  unext :: "M \<Rightarrow> uintptr"
  counter :: nat
  tmp :: "M \<Rightarrow> nat"
  iter :: "M \<Rightarrow> nat"
  niter :: nat
  incs :: "M \<Rightarrow> nat"
  trace :: "event list"

text \<open>
  Modelled from the spec: the semaphore routines are OS-specific and not in this file;
  lines 13-24 give their contract.  \<^verbatim>\<open>semacreate\<close> returns a non-zero handle (only
  ever compared with 0).  The semaphore of an M is a count: \<^verbatim>\<open>semawakeup(mp)\<close> adds one
  to the count of \<open>mp\<close>; \<^verbatim>\<open>semasleep(ns)\<close> with \<open>ns < 0\<close> waits until the count is
  positive, takes one and returns 0.
\<close>

definition semacreate :: uintptr where
  "semacreate = 1"

definition goto :: "M \<Rightarrow> mpc \<Rightarrow> msys \<Rightarrow> msys" where
  "goto t p s = s\<lparr>pc := (pc s)(t := p)\<rparr>"

definition emit :: "event \<Rightarrow> msys \<Rightarrow> msys" where
  "emit e s = s\<lparr>trace := e # trace s\<rparr>"

definition semawakeup :: "M \<Rightarrow> msys \<Rightarrow> msys" where
  "semawakeup mp s = s\<lparr>sema := (sema s)(mp := sema s mp + 1)\<rparr>"

text \<open>
  One atomic step of thread \<open>t\<close> standing at a program point of \<^verbatim>\<open>runtime.lock\<close>
  (lines 36-90), \<^verbatim>\<open>runtime.unlock\<close> (lines 92-119) or of the worker.
\<close>

fun mstep_pc :: "mpc \<Rightarrow> M \<Rightarrow> msys \<Rightarrow> msys" where
  \<comment> \<open>line 42: \<^verbatim>\<open>if(g->m->locks++ < 0) throw\<close>\<close>
  "mstep_pc L_ENTER t s =
     (let old = locks s t; s1 = s\<lparr>locks := (locks s)(t := old + 1)\<rparr>
      in if sint old < 0 then goto t (THROWN lock_count_msg) s1
         else goto t L_FAST s1)"
  \<comment> \<open>line 46: \<^verbatim>\<open>if(casp(&l->key, nil, LOCKED)) return\<close>\<close>
| "mstep_pc L_FAST t s =
     (if key s = 0 then goto t L_RET (emit (EvAcquire t) (s\<lparr>key := LOCKED\<rparr>))
      else goto t L_SEMA s)"
  \<comment> \<open>lines 49-58: semaphore on first use, spin budget, \<^verbatim>\<open>i=0\<close>\<close>
| "mstep_pc L_SEMA t s =
     (let s1 = (if waitsema s t = 0 then s\<lparr>waitsema := (waitsema s)(t := semacreate)\<rparr> else s);
          spin = (if 1 < sint (ncpu s) then ACTIVE_SPIN else 0)
      in goto t L_LOAD (s1\<lparr>lspin := (lspin s1)(t := spin), li := (li s1)(t := 0)\<rparr>))"
  \<comment> \<open>lines 59-60: \<^verbatim>\<open>v = atomicloadp(&l->key); if((v&LOCKED) == 0)\<close>\<close>
| "mstep_pc L_LOAD t s =
     (let v = key s
      in goto t (if v AND LOCKED = 0 then L_ACQ else L_SPIN) (s\<lparr>lv := (lv s)(t := v)\<rparr>))"
  \<comment> \<open>lines 61-64: \<^verbatim>\<open>unlocked: if(casp(&l->key, v, v|LOCKED)) return; i = 0\<close>\<close>
| "mstep_pc L_ACQ t s =
     (if key s = lv s t
      then goto t L_RET (emit (EvAcquire t) (s\<lparr>key := lv s t OR LOCKED\<rparr>))
      else goto t L_SPIN (s\<lparr>li := (li s)(t := 0)\<rparr>))"
  \<comment> \<open>lines 66-70: procyield, osyield, or go on to queue\<close>
| "mstep_pc L_SPIN t s =
     (if li s t < lspin s t then goto t L_NEXT (emit (EvProcYield t ACTIVE_SPIN_CNT) s)
      else if li s t < lspin s t + PASSIVE_SPIN then goto t L_NEXT (emit (EvOsYield t) s)
      else goto t L_SETNEXT s)"
  \<comment> \<open>line 76: \<^verbatim>\<open>g->m->nextwaitm = (void*)(v&~LOCKED)\<close>\<close>
| "mstep_pc L_SETNEXT t s =
     goto t L_PUSH (s\<lparr>nextwaitm := (nextwaitm s)(t := lv s t AND NOT LOCKED)\<rparr>)"
  \<comment> \<open>lines 77-78 and 83: \<^verbatim>\<open>if(casp(&l->key, v, g->m|LOCKED)) break\<close>, then \<^verbatim>\<open>if(v&LOCKED)\<close>\<close>
| "mstep_pc L_PUSH t s =
     (if key s = lv s t
      then goto t (if lv s t AND LOCKED \<noteq> 0 then L_SLEEP else L_NEXT)
             (emit (EvPush t) (s\<lparr>key := t OR LOCKED\<rparr>))
      else goto t L_RELOAD s)"
  \<comment> \<open>lines 79-81: \<^verbatim>\<open>v = atomicloadp(&l->key); if((v&LOCKED) == 0) goto unlocked\<close>\<close>
| "mstep_pc L_RELOAD t s =
     (let v = key s
      in goto t (if v AND LOCKED = 0 then L_ACQ else L_SETNEXT) (s\<lparr>lv := (lv s)(t := v)\<rparr>))"
  \<comment> \<open>lines 85-86: \<^verbatim>\<open>semasleep(-1); i = 0\<close>; the thread stays here while the count is 0\<close>
| "mstep_pc L_SLEEP t s =
     (if 0 < sema s t
      then goto t L_NEXT (s\<lparr>sema := (sema s)(t := sema s t - 1), li := (li s)(t := 0)\<rparr>)
      else s)"
  \<comment> \<open>line 58: the \<^verbatim>\<open>i++\<close> of the \<^verbatim>\<open>for\<close>\<close>
| "mstep_pc L_NEXT t s = goto t L_LOAD (s\<lparr>li := (li s)(t := li s t + 1)\<rparr>)"
  \<comment> \<open>lines 99-100 and 106: \<^verbatim>\<open>v = atomicloadp(&l->key); if(v == LOCKED) ... else mp = v&~LOCKED\<close>\<close>
| "mstep_pc U_LOAD t s =
     (let v = key s; s1 = s\<lparr>lv := (lv s)(t := v)\<rparr>
      in if v = LOCKED then goto t U_CAS0 s1
         else goto t U_READNEXT (s1\<lparr>ump := (ump s1)(t := v AND NOT LOCKED)\<rparr>))"
  \<comment> \<open>lines 101-102: \<^verbatim>\<open>if(casp(&l->key, LOCKED, nil)) break\<close>\<close>
| "mstep_pc U_CAS0 t s =
     (if key s = LOCKED then goto t U_DEC (emit (EvRelease t) (s\<lparr>key := 0\<rparr>))
      else goto t U_LOAD s)"
  \<comment> \<open>line 107, the argument \<^verbatim>\<open>mp->nextwaitm\<close>: a read through \<open>mp\<close>, which faults at nil\<close>
| "mstep_pc U_READNEXT t s =
     (if ump s t = 0 then goto t FAULT s
      else goto t U_CAS (s\<lparr>unext := (unext s)(t := nextwaitm s (ump s t))\<rparr>))"
  \<comment> \<open>line 107: \<^verbatim>\<open>if(casp(&l->key, v, mp->nextwaitm))\<close>\<close>
| "mstep_pc U_CAS t s =
     (if key s = lv s t
      then goto t U_WAKE (emit (EvPop t (ump s t)) (s\<lparr>key := unext s t\<rparr>))
      else goto t U_LOAD s)"
  \<comment> \<open>lines 109-110: \<^verbatim>\<open>semawakeup(mp); break\<close>\<close>
| "mstep_pc U_WAKE t s =
     goto t U_DEC (emit (EvSemaWakeup t (ump s t)) (semawakeup (ump s t) s))"
  \<comment> \<open>lines 115-118: lock count and the preemption request\<close>
| "mstep_pc U_DEC t s =
     (let n = locks s t - 1; s1 = s\<lparr>locks := (locks s)(t := n)\<rparr>
      in if sint n < 0 then goto t (THROWN unlock_count_msg) s1
         else goto t U_RET
           (if n = 0 \<and> preempt s t
            then s1\<lparr>stackguard0 := (stackguard0 s1)(t := StackPreempt s1)\<rparr> else s1))"
  \<comment> \<open>the worker: \<^verbatim>\<open>for K times { lock(l); counter = counter + 1; unlock(l); }\<close>\<close>
| "mstep_pc W_IDLE t s = goto t (if iter s t < niter s then L_ENTER else W_DONE) s"
| "mstep_pc L_RET t s = goto t W_WRITE (s\<lparr>tmp := (tmp s)(t := counter s)\<rparr>)"
| "mstep_pc W_WRITE t s =
     goto t U_LOAD (s\<lparr>counter := tmp s t + 1, incs := (incs s)(t := incs s t + 1)\<rparr>)"
| "mstep_pc U_RET t s = goto t W_IDLE (s\<lparr>iter := (iter s)(t := iter s t + 1)\<rparr>)"
| "mstep_pc W_DONE t s = s"
| "mstep_pc (THROWN msg) t s = s"
| "mstep_pc FAULT t s = s"

definition mstep :: "M \<Rightarrow> msys \<Rightarrow> msys" where
  "mstep t s = mstep_pc (pc s t) t s"

text \<open>A schedule is the list of the threads that take the next steps, in order.\<close>

definition mrun :: "M list \<Rightarrow> msys \<Rightarrow> msys" where
  "mrun sched s = foldl (\<lambda>s t. mstep t s) s sched"


text \<open>The zero-valued system: an unlocked mutex with no waiters, every thread idle.\<close>

definition minit :: "int32 \<Rightarrow> nat \<Rightarrow> uintptr \<Rightarrow> msys" where
  "minit cpus k sp =
     \<lparr>key = 0, nextwaitm = (\<lambda>_. 0), sema = (\<lambda>_. 0), waitsema = (\<lambda>_. 0),
      locks = (\<lambda>_. 0), preempt = (\<lambda>_. False), stackguard0 = (\<lambda>_. 0),
      ncpu = cpus, StackPreempt = sp, pc = (\<lambda>_. W_IDLE), lv = (\<lambda>_. 0),
      li = (\<lambda>_. 0), lspin = (\<lambda>_. 0), ump = (\<lambda>_. 0), unext = (\<lambda>_. 0),
      counter = 0, tmp = (\<lambda>_. 0), iter = (\<lambda>_. 0), niter = k, incs = (\<lambda>_. 0),
      trace = []\<rparr>"

section \<open>What the claims about the mutex speak of\<close>

text \<open>The address of an M: not nil, and aligned, so that bit 0 is free for the flag.\<close>

definition validM :: "M \<Rightarrow> bool" where
  "validM t = (t \<noteq> 0 \<and> t AND LOCKED = 0)"

text \<open>
  \<open>is_chain nxt p xs\<close>: following \<open>nextwaitm\<close> from the pointer \<open>p\<close> visits exactly
  the Ms \<open>xs\<close>, in this order, and ends at nil.
\<close>

primrec is_chain :: "(M \<Rightarrow> uintptr) \<Rightarrow> uintptr \<Rightarrow> M list \<Rightarrow> bool" where
  "is_chain nxt p [] = (p = 0)"
| "is_chain nxt p (x # xs) = (p = x \<and> x \<noteq> 0 \<and> is_chain nxt (nxt x) xs)"

text \<open>
  The stack of Ms that the history says are waiting: a successful push compare-and-swap
  (line 77) puts its M on top, a successful pop compare-and-swap (line 107) takes the top
  off.
\<close>

fun waitq :: "event list \<Rightarrow> M list" where
  "waitq [] = []"
| "waitq (EvPush t # es) = t # waitq es"
| "waitq (EvPop u m # es) = tl (waitq es)"
| "waitq (e # es) = waitq es"

definition wq :: "msys \<Rightarrow> M list" where
  "wq s = waitq (trace s)"

text \<open>
  A thread holds the mutex from the return of \<^verbatim>\<open>runtime.lock\<close> until its release
  compare-and-swap in \<^verbatim>\<open>runtime.unlock\<close> (line 101 or 107) succeeds.
\<close>

fun holding :: "mpc \<Rightarrow> bool" where
  "holding L_RET = True"
| "holding W_WRITE = True"
| "holding U_LOAD = True"
| "holding U_CAS0 = True"
| "holding U_READNEXT = True"
| "holding U_CAS = True"
| "holding _ = False"

text \<open>Program points other than the fatal ones; the lock count at each program point.\<close>

fun ok_pc :: "mpc \<Rightarrow> bool" where
  "ok_pc (THROWN m) = False"
| "ok_pc FAULT = False"
| "ok_pc _ = True"

fun lockcnt :: "mpc \<Rightarrow> int32" where
  "lockcnt W_IDLE = 0"
| "lockcnt L_ENTER = 0"
| "lockcnt U_RET = 0"
| "lockcnt W_DONE = 0"
| "lockcnt _ = 1"

text \<open>
  The program points of a call of \<^verbatim>\<open>runtime.unlock\<close> that has not ended: the release
  loop (lines 98-113) and the decrement of line 115.  The two fatal ends of such a call:
  the throw of line 116, and the read through nil of line 107.
\<close>

fun unlock_pending :: "mpc \<Rightarrow> bool" where
  "unlock_pending U_LOAD = True"
| "unlock_pending U_CAS0 = True"
| "unlock_pending U_READNEXT = True"
| "unlock_pending U_CAS = True"
| "unlock_pending U_WAKE = True"
| "unlock_pending U_DEC = True"
| "unlock_pending _ = False"

fun unlock_fatal :: "mpc \<Rightarrow> bool" where
  "unlock_fatal (THROWN m) = (m = unlock_count_msg)"
| "unlock_fatal FAULT = True"
| "unlock_fatal _ = False"

text \<open>The program points inside the \<^verbatim>\<open>for\<close> loop of \<^verbatim>\<open>runtime.lock\<close>.\<close>

fun in_loop :: "mpc \<Rightarrow> bool" where
  "in_loop L_LOAD = True"
| "in_loop L_ACQ = True"
| "in_loop L_SPIN = True"
| "in_loop L_SETNEXT = True"
| "in_loop L_PUSH = True"
| "in_loop L_RELOAD = True"
| "in_loop L_SLEEP = True"
| "in_loop L_NEXT = True"
| "in_loop _ = False"

text \<open>
  The worker's bookkeeping: past its write of the counter and before the end of the
  iteration, a thread has made one increment more than it has finished iterations.
\<close>

fun counted :: "mpc \<Rightarrow> nat" where
  "counted U_LOAD = 1"
| "counted U_CAS0 = 1"
| "counted U_READNEXT = 1"
| "counted U_CAS = 1"
| "counted U_WAKE = 1"
| "counted U_DEC = 1"
| "counted U_RET = 1"
| "counted _ = 0"

fun working :: "mpc \<Rightarrow> bool" where
  "working W_IDLE = False"
| "working W_DONE = False"
| "working _ = True"

text \<open>
  The invariant of the system of workers, in seven parts: no fatal error and the lock
  counts; the LOCKED bit and the holder; the local variables of \<^verbatim>\<open>runtime.lock\<close>; the
  wait list in memory; the wakeups under way; the local variables of
  \<^verbatim>\<open>runtime.unlock\<close>; the counter.
\<close>

definition inv_pc :: "msys \<Rightarrow> bool" where
  "inv_pc s = (\<forall>t. ok_pc (pc s t) \<and> locks s t = lockcnt (pc s t))"

definition inv_bit :: "msys \<Rightarrow> bool" where
  "inv_bit s = (((key s AND LOCKED \<noteq> 0) = (\<exists>t. holding (pc s t))) \<and>
     (\<forall>t u. holding (pc s t) \<longrightarrow> holding (pc s u) \<longrightarrow> t = u))"

definition inv_lock :: "msys \<Rightarrow> bool" where
  "inv_lock s = (\<forall>t.
     (pc s t = L_ACQ \<longrightarrow> lv s t AND LOCKED = 0) \<and>
     (pc s t = L_SETNEXT \<or> pc s t = L_PUSH \<longrightarrow> lv s t AND LOCKED \<noteq> 0) \<and>
     (pc s t = L_SPIN \<longrightarrow> lv s t AND LOCKED = 0 \<longrightarrow> li s t = 0) \<and>
     (in_loop (pc s t) \<longrightarrow> lspin s t = 0 \<or> lspin s t = ACTIVE_SPIN) \<and>
     (pc s t = L_PUSH \<longrightarrow> nextwaitm s t = lv s t AND NOT LOCKED))"

definition inv_queue :: "msys \<Rightarrow> bool" where
  "inv_queue s = (is_chain (nextwaitm s) (key s AND NOT LOCKED) (wq s) \<and> distinct (wq s) \<and>
     (\<forall>t\<in>set (wq s). validM t \<and> pc s t = L_SLEEP \<and> sema s t = 0 \<and>
        (\<forall>u. pc s u = U_WAKE \<longrightarrow> ump s u \<noteq> t)))"

definition inv_wake :: "msys \<Rightarrow> bool" where
  "inv_wake s = ((\<forall>t. 0 < sema s t \<longrightarrow> pc s t = L_SLEEP \<and> sema s t = 1 \<and>
        (\<forall>u. pc s u = U_WAKE \<longrightarrow> ump s u \<noteq> t)) \<and>
     (\<forall>u. pc s u = U_WAKE \<longrightarrow> pc s (ump s u) = L_SLEEP \<and>
        (\<forall>u'. pc s u' = U_WAKE \<longrightarrow> ump s u' = ump s u \<longrightarrow> u' = u)) \<and>
     (\<forall>t. pc s t = L_SLEEP \<longrightarrow>
        t \<in> set (wq s) \<or> 0 < sema s t \<or> (\<exists>u. pc s u = U_WAKE \<and> ump s u = t)))"

definition inv_unlock :: "msys \<Rightarrow> bool" where
  "inv_unlock s = (\<forall>u.
     (pc s u = U_READNEXT \<or> pc s u = U_CAS \<longrightarrow>
        ump s u = lv s u AND NOT LOCKED \<and> ump s u \<in> set (wq s)) \<and>
     (pc s u = U_CAS \<longrightarrow> unext s u = nextwaitm s (ump s u)))"

definition inv_counter :: "msys \<Rightarrow> bool" where
  "inv_counter s = (counter s = sum (incs s) UNIV \<and>
     (\<forall>t. (pc s t = W_WRITE \<longrightarrow> tmp s t = counter s) \<and>
        incs s t = iter s t + counted (pc s t) \<and>
        iter s t \<le> niter s \<and>
        (working (pc s t) \<longrightarrow> iter s t < niter s) \<and>
        (pc s t = W_DONE \<longrightarrow> iter s t = niter s)))"

definition minv :: "msys \<Rightarrow> bool" where
  "minv s = (inv_pc s \<and> inv_bit s \<and> inv_lock s \<and> inv_queue s \<and> inv_wake s \<and>
     inv_unlock s \<and> inv_counter s)"

text \<open>Thread \<open>u\<close> has popped \<open>x\<close> and is about to call \<^verbatim>\<open>semawakeup(x)\<close>.\<close>

definition waker :: "msys \<Rightarrow> M \<Rightarrow> M \<Rightarrow> bool" where
  "waker s u x = (pc s u = U_WAKE \<and> ump s u = x)"

definition cnt_local :: "msys \<Rightarrow> M \<Rightarrow> bool" where
  "cnt_local s t = ((pc s t = W_WRITE \<longrightarrow> tmp s t = counter s) \<and>
        incs s t = iter s t + counted (pc s t) \<and>
        iter s t \<le> niter s \<and>
        (working (pc s t) \<longrightarrow> iter s t < niter s) \<and>
        (pc s t = W_DONE \<longrightarrow> iter s t = niter s))"

text \<open>
  A release race is being resolved: the history holds a pop by an unlock with no
  successful acquisition after it.
\<close>

fun release_race :: "event list \<Rightarrow> bool" where
  "release_race [] = False"
| "release_race (EvPop u m # es) = True"
| "release_race (EvAcquire t # es) = False"
| "release_race (e # es) = release_race es"

text \<open>The Ms given to \<^verbatim>\<open>semawakeup\<close>, oldest call first.\<close>

fun wakeups :: "event list \<Rightarrow> M list" where
  "wakeups [] = []"
| "wakeups (EvSemaWakeup u m # es) = wakeups es @ [m]"
| "wakeups (e # es) = wakeups es"

definition inv_race :: "msys \<Rightarrow> bool" where
  "inv_race s = (key s AND LOCKED = 0 \<longrightarrow> key s = 0 \<or> release_race (trace s))"

text \<open>
  A schedule on one processor, with an iteration each: thread 2 takes the mutex; threads
  4, 6 and 8 in turn find it taken, yield once, push themselves and park.  Then thread
  2 writes the counter and unlocks (up to its \<^verbatim>\<open>semawakeup\<close>), thread 8 wakes,
  acquires, writes and unlocks, and thread 6 does the same.
\<close>

definition lifo_enqueue :: "M list" where
  "lifo_enqueue = replicate 3 2 @ replicate 11 4 @ replicate 11 6 @ replicate 11 8"

definition lifo_release :: "M list" where
  "lifo_release = replicate 6 2 @ replicate 10 8 @ replicate 10 6"

section \<open>Notes of lock\_sema.c as an interleaving of atomic steps\<close>

text \<open>
  A Note is one word \<^verbatim>\<open>n->key\<close>: nil (nobody registered, no wakeup yet), the M of the
  thread registered to sleep on it, or LOCKED (the wakeup has happened).  The threads
  step as for the mutex; besides \<open>Run t\<close>, the schedule has \<open>Intr t\<close>, at which a
  \<^verbatim>\<open>semasleep(ns)\<close> with \<open>ns \<ge> 0\<close> of thread \<open>t\<close> returns -1 (timed out or
  interrupted), and \<open>Tick d\<close>, at which the clock advances by \<open>d\<close> nanoseconds.
\<close>

type_synonym int64 = "64 word"

datatype nevent = NvSemaWakeup M M

datatype npc =
    N_IDLE
  | NW_LOAD
  | NW_CAS
  | NW_WAKE
  | NW_RET
  | NS_ENTER
  | NS_REG
  | NS_CHECK
  | NS_SLEEP
  | NS_RET
  | NT_ENTER
  | NT_REG
  | NT_CHECK
  | NT_PARK
  | NT_DEADLINE
  | NT_SLEEP
  | NT_NOW
  | NT_CLOAD
  | NT_CCAS
  | NT_CSLEEP
  | NT_RET bool
  | N_THROWN string

datatype naction = Run M | Intr M | Tick nat

record nsys =
  nkey :: uintptr
  nsema :: "M \<Rightarrow> nat"
  nwaitsema :: "M \<Rightarrow> uintptr"
  blocked :: "M \<Rightarrow> bool"
  on_g0 :: "M \<Rightarrow> bool"
  gcing :: "M \<Rightarrow> bool"
  now :: int
  npc :: "M \<Rightarrow> npc"
  ns :: "M \<Rightarrow> int64"
  deadline :: "M \<Rightarrow> int64"
  nmp :: "M \<Rightarrow> uintptr"
  ntrace :: "nevent list"

definition ngoto :: "M \<Rightarrow> npc \<Rightarrow> nsys \<Rightarrow> nsys" where
  "ngoto t p s = s\<lparr>npc := (npc s)(t := p)\<rparr>"

definition nthrow :: "M \<Rightarrow> string \<Rightarrow> nsys \<Rightarrow> nsys" where
  "nthrow t msg s = ngoto t (N_THROWN msg) s"

text \<open>
  Modelled from the spec: \<^verbatim>\<open>semasleep\<close>, \<^verbatim>\<open>semawakeup\<close> and \<^verbatim>\<open>nanotime\<close> are not
  in this file.  By lines 18-24, \<^verbatim>\<open>semasleep(ns)\<close> with \<open>ns < 0\<close> acquires the
  semaphore of the calling M and returns 0; with \<open>ns \<ge> 0\<close> it returns 0 if it acquired
  the semaphore and -1 if it was interrupted or timed out.  The result \<open>None\<close> says that
  the call has not returned yet.  \<^verbatim>\<open>semawakeup(mp)\<close> adds one to the count of
  \<open>mp\<close>.  \<^verbatim>\<open>nanotime\<close> is the clock as an \<open>int64\<close>.
\<close>

definition semasleep :: "int64 \<Rightarrow> bool \<Rightarrow> M \<Rightarrow> nsys \<Rightarrow> (int32 \<times> nsys) option" where
  "semasleep n intr t s =
     (if 0 \<le> sint n \<and> intr then Some (- 1, s)
      else if 0 < nsema s t then Some (0, s\<lparr>nsema := (nsema s)(t := nsema s t - 1)\<rparr>)
      else None)"

definition nsemawakeup :: "M \<Rightarrow> M \<Rightarrow> nsys \<Rightarrow> nsys" where
  "nsemawakeup t mp s =
     s\<lparr>nsema := (nsema s)(mp := nsema s mp + 1), ntrace := NvSemaWakeup t mp # ntrace s\<rparr>"

definition nanotime :: "nsys \<Rightarrow> int64" where
  "nanotime s = word_of_int (now s)"

text \<open>Lines 166-167, 252-253: \<^verbatim>\<open>if(g->m->waitsema == 0) g->m->waitsema = semacreate()\<close>.\<close>

definition ensure_sema :: "M \<Rightarrow> nsys \<Rightarrow> nsys" where
  "ensure_sema t s =
     (if nwaitsema s t = 0 then s\<lparr>nwaitsema := (nwaitsema s)(t := semacreate)\<rparr> else s)"


text \<open>
  What \<^verbatim>\<open>notetsleep\<close> does with the result \<open>r\<close> of its parks: lines 206-212 after
  \<^verbatim>\<open>semasleep(ns)\<close>, lines 235-238 after the \<^verbatim>\<open>semasleep(-1)\<close> of the cancellation
  path.
\<close>

definition timed_park_result :: "int32 \<Rightarrow> M \<Rightarrow> nsys \<Rightarrow> nsys" where
  "timed_park_result r t s =
     (if 0 \<le> sint r then ngoto t (NT_RET True) (s\<lparr>blocked := (blocked s)(t := False)\<rparr>)
      else ngoto t NT_NOW (s\<lparr>blocked := (blocked s)(t := False)\<rparr>))"

definition cancel_park_result :: "int32 \<Rightarrow> M \<Rightarrow> nsys \<Rightarrow> nsys" where
  "cancel_park_result r t s =
     (if sint r < 0 then nthrow t ''runtime: unable to acquire - semaphore out of sync'' s
      else ngoto t (NT_RET True) (s\<lparr>blocked := (blocked s)(t := False)\<rparr>))"

text \<open>
  One atomic step of thread \<open>t\<close> in \<^verbatim>\<open>runtime.notewakeup\<close> (lines 128-148),
  \<^verbatim>\<open>runtime.notesleep\<close> (lines 160-177) or \<^verbatim>\<open>runtime.notetsleep\<close> with the static
  \<^verbatim>\<open>notetsleep\<close> it calls (lines 180-257, the argument \<open>ns\<close> in the field \<open>ns\<close>).
  The flag \<open>intr\<close> is passed to \<^verbatim>\<open>semasleep\<close>.
\<close>

fun nstep_pc :: "npc \<Rightarrow> bool \<Rightarrow> M \<Rightarrow> nsys \<Rightarrow> nsys" where
  \<comment> \<open>line 134: \<^verbatim>\<open>mp = atomicloadp(&n->key)\<close>\<close>
  "nstep_pc NW_LOAD intr t s = ngoto t NW_CAS (s\<lparr>nmp := (nmp s)(t := nkey s)\<rparr>)"
  \<comment> \<open>lines 135-147: \<^verbatim>\<open>while(!casp(&n->key, mp, LOCKED))\<close>, then the three cases on \<open>mp\<close>\<close>
| "nstep_pc NW_CAS intr t s =
     (if nkey s = nmp s t
      then (let s1 = s\<lparr>nkey := LOCKED\<rparr>
            in if nmp s t = 0 then ngoto t NW_RET s1
               else if nmp s t = LOCKED then nthrow t ''notewakeup - double wakeup'' s1
               else ngoto t NW_WAKE s1)
      else ngoto t NW_LOAD s)"
  \<comment> \<open>line 146: \<^verbatim>\<open>semawakeup(mp)\<close>\<close>
| "nstep_pc NW_WAKE intr t s = ngoto t NW_RET (nsemawakeup t (nmp s t) s)"
  \<comment> \<open>lines 163-167: \<^verbatim>\<open>if(g != g->m->g0) throw\<close>, semaphore on first use\<close>
| "nstep_pc NS_ENTER intr t s =
     (if \<not> on_g0 s t then nthrow t ''notesleep not on g0'' s
      else ngoto t NS_REG (ensure_sema t s))"
  \<comment> \<open>lines 168 and 174: \<^verbatim>\<open>if(!casp(&n->key, nil, g->m))\<close>, else \<^verbatim>\<open>blocked = true\<close>\<close>
| "nstep_pc NS_REG intr t s =
     (if nkey s = 0
      then ngoto t NS_SLEEP (s\<lparr>nkey := t, blocked := (blocked s)(t := True)\<rparr>)
      else ngoto t NS_CHECK s)"
  \<comment> \<open>lines 169-171: \<^verbatim>\<open>if(n->key != LOCKED) throw; return\<close>\<close>
| "nstep_pc NS_CHECK intr t s =
     (if nkey s \<noteq> LOCKED then nthrow t ''notesleep - waitm out of sync'' s
      else ngoto t NS_RET s)"
  \<comment> \<open>lines 175-176: \<^verbatim>\<open>semasleep(-1); blocked = false\<close>\<close>
| "nstep_pc NS_SLEEP intr t s =
     (case semasleep (- 1) intr t s of
        None \<Rightarrow> s
      | Some (r, s1) \<Rightarrow> ngoto t NS_RET (s1\<lparr>blocked := (blocked s1)(t := False)\<rparr>))"
  \<comment> \<open>lines 249-253: \<^verbatim>\<open>if(g != g->m->g0 && !g->m->gcing) throw\<close>, semaphore on first use\<close>
| "nstep_pc NT_ENTER intr t s =
     (if \<not> on_g0 s t \<and> \<not> gcing s t then nthrow t ''notetsleep not on g0'' s
      else ngoto t NT_REG (ensure_sema t s))"
  \<comment> \<open>lines 188 and 194-196: the registration, then \<^verbatim>\<open>if(ns < 0) blocked = true\<close>\<close>
| "nstep_pc NT_REG intr t s =
     (if nkey s = 0
      then (if sint (ns s t) < 0
            then ngoto t NT_PARK (s\<lparr>nkey := t, blocked := (blocked s)(t := True)\<rparr>)
            else ngoto t NT_DEADLINE (s\<lparr>nkey := t\<rparr>))
      else ngoto t NT_CHECK s)"
  \<comment> \<open>lines 189-191: \<^verbatim>\<open>if(n->key != LOCKED) throw; return true\<close>\<close>
| "nstep_pc NT_CHECK intr t s =
     (if nkey s \<noteq> LOCKED then nthrow t ''notetsleep - waitm out of sync'' s
      else ngoto t (NT_RET True) s)"
  \<comment> \<open>lines 197-199: \<^verbatim>\<open>semasleep(-1); blocked = false; return true\<close>\<close>
| "nstep_pc NT_PARK intr t s =
     (case semasleep (- 1) intr t s of
        None \<Rightarrow> s
      | Some (r, s1) \<Rightarrow> ngoto t (NT_RET True) (s1\<lparr>blocked := (blocked s1)(t := False)\<rparr>))"
  \<comment> \<open>lines 202 and 205: \<^verbatim>\<open>deadline = nanotime() + ns; blocked = true\<close>\<close>
| "nstep_pc NT_DEADLINE intr t s =
     ngoto t NT_SLEEP
       (s\<lparr>deadline := (deadline s)(t := nanotime s + ns s t),
          blocked := (blocked s)(t := True)\<rparr>)"
  \<comment> \<open>lines 206-212: \<^verbatim>\<open>if(semasleep(ns) >= 0) { blocked = false; return true; } blocked = false\<close>\<close>
| "nstep_pc NT_SLEEP intr t s =
     (case semasleep (ns s t) intr t s of
        None \<Rightarrow> s
      | Some (r, s1) \<Rightarrow> timed_park_result r t s1)"
  \<comment> \<open>lines 215-217 and 205: \<^verbatim>\<open>ns = deadline - nanotime(); if(ns <= 0) break\<close>, else park again\<close>
| "nstep_pc NT_NOW intr t s =
     (let n = deadline s t - nanotime s; s1 = s\<lparr>ns := (ns s)(t := n)\<rparr>
      in if sint n \<le> 0 then ngoto t NT_CLOAD s1
         else ngoto t NT_SLEEP (s1\<lparr>blocked := (blocked s1)(t := True)\<rparr>))"
  \<comment> \<open>lines 226-240: \<^verbatim>\<open>mp = atomicloadp(&n->key)\<close> and the three cases on \<open>mp\<close>\<close>
| "nstep_pc NT_CLOAD intr t s =
     (let mp = nkey s; s1 = s\<lparr>nmp := (nmp s)(t := mp)\<rparr>
      in if mp = t then ngoto t NT_CCAS s1
         else if mp = LOCKED then ngoto t NT_CSLEEP (s1\<lparr>blocked := (blocked s1)(t := True)\<rparr>)
         else nthrow t ''runtime: unexpected waitm - semaphore out of sync'' s1)"
  \<comment> \<open>lines 229-230: \<^verbatim>\<open>if(casp(&n->key, mp, nil)) return false\<close>\<close>
| "nstep_pc NT_CCAS intr t s =
     (if nkey s = nmp s t then ngoto t (NT_RET False) (s\<lparr>nkey := 0\<rparr>)
      else ngoto t NT_CLOAD s)"
  \<comment> \<open>lines 235-238: \<^verbatim>\<open>if(semasleep(-1) < 0) throw; blocked = false; return true\<close>\<close>
| "nstep_pc NT_CSLEEP intr t s =
     (case semasleep (- 1) intr t s of
        None \<Rightarrow> s
      | Some (r, s1) \<Rightarrow> cancel_park_result r t s1)"
| "nstep_pc N_IDLE intr t s = s"
| "nstep_pc NW_RET intr t s = s"
| "nstep_pc NS_RET intr t s = s"
| "nstep_pc (NT_RET b) intr t s = s"
| "nstep_pc (N_THROWN msg) intr t s = s"

definition nstep :: "naction \<Rightarrow> nsys \<Rightarrow> nsys" where
  "nstep a s =
     (case a of
        Run t \<Rightarrow> nstep_pc (npc s t) False t s
      | Intr t \<Rightarrow> nstep_pc (npc s t) True t s
      | Tick d \<Rightarrow> s\<lparr>now := now s + int d\<rparr>)"

definition nrun :: "naction list \<Rightarrow> nsys \<Rightarrow> nsys" where
  "nrun sched s = foldl (\<lambda>s a. nstep a s) s sched"

text \<open>
  A cleared note at time \<open>t0\<close>, all semaphore counts 0, every thread idle and on its
  \<open>g0\<close>.
\<close>

definition ninit :: "int \<Rightarrow> nsys" where
  "ninit t0 =
     \<lparr>nkey = 0, nsema = (\<lambda>_. 0), nwaitsema = (\<lambda>_. 0), blocked = (\<lambda>_. False),
      on_g0 = (\<lambda>_. True), gcing = (\<lambda>_. False), now = t0, npc = (\<lambda>_. N_IDLE),
      ns = (\<lambda>_. 0), deadline = (\<lambda>_. 0), nmp = (\<lambda>_. 0), ntrace = []\<rparr>"


section \<open>What the claims about the Note speak of\<close>


fun waker_pc :: "npc \<Rightarrow> bool" where
  "waker_pc NW_LOAD = True"
| "waker_pc NW_CAS = True"
| "waker_pc NW_WAKE = True"
| "waker_pc NW_RET = True"
| "waker_pc _ = False"


fun wakeup_done :: "npc \<Rightarrow> bool" where
  "wakeup_done NW_WAKE = True"
| "wakeup_done NW_RET = True"
| "wakeup_done (N_THROWN m) = True"
| "wakeup_done _ = False"














section \<open>Running schedules\<close>

lemma replicate_num: "replicate (numeral k) x = x # replicate (pred_numeral k) x"
  by (simp add: numeral_eq_Suc)

lemma mrun_Nil: "mrun [] s = s"
  by (simp add: mrun_def)

lemma mrun_Cons: "mrun (t # ts) s = mrun ts (mstep t s)"
  by (simp add: mrun_def)

lemma mrun_append: "mrun (xs @ ys) s = mrun ys (mrun xs s)"
  by (simp add: mrun_def)

lemma mrun_snoc: "mrun (xs @ [t]) s = mstep t (mrun xs s)"
  by (simp add: mrun_def)

lemmas solo_simps = replicate_num mrun_Nil mrun_Cons mstep_def goto_def emit_def Let_def
  semawakeup_def ACTIVE_SPIN_def PASSIVE_SPIN_def

lemma LOCKED_nz: "v AND LOCKED \<noteq> 0 \<Longrightarrow> v \<noteq> 0"
  by auto

section \<open>The spin budget of \<^verbatim>\<open>runtime.lock\<close>\<close>

lemma spin_multi:
  assumes "pc s t = L_ENTER" "\<not> sint (locks s t) < 0" "key s AND LOCKED \<noteq> 0"
    "1 < sint (ncpu s)"
  shows "mrun (replicate 22 t) s =
     s\<lparr>locks := (locks s)(t := locks s t + 1),
       waitsema := (waitsema s)(t := if waitsema s t = 0 then semacreate else waitsema s t),
       lspin := (lspin s)(t := 4), li := (li s)(t := 5), lv := (lv s)(t := key s),
       nextwaitm := (nextwaitm s)(t := key s AND NOT LOCKED),
       key := t OR LOCKED,
       trace := EvPush t # EvOsYield t # EvProcYield t ACTIVE_SPIN_CNT #
                EvProcYield t ACTIVE_SPIN_CNT # EvProcYield t ACTIVE_SPIN_CNT #
                EvProcYield t ACTIVE_SPIN_CNT # trace s,
       pc := (pc s)(t := L_SLEEP)\<rparr>"
proof (cases "waitsema s t = 0")
  case True
  with assms LOCKED_nz[OF assms(3)] show ?thesis by (simp add: solo_simps)
next
  case False
  with assms LOCKED_nz[OF assms(3)] show ?thesis by (simp add: solo_simps)
qed

lemma spin_uni:
  assumes "pc s t = L_ENTER" "\<not> sint (locks s t) < 0" "key s AND LOCKED \<noteq> 0"
    "\<not> 1 < sint (ncpu s)"
  shows "mrun (replicate 10 t) s =
     s\<lparr>locks := (locks s)(t := locks s t + 1),
       waitsema := (waitsema s)(t := if waitsema s t = 0 then semacreate else waitsema s t),
       lspin := (lspin s)(t := 0), li := (li s)(t := 1), lv := (lv s)(t := key s),
       nextwaitm := (nextwaitm s)(t := key s AND NOT LOCKED),
       key := t OR LOCKED,
       trace := EvPush t # EvOsYield t # trace s,
       pc := (pc s)(t := L_SLEEP)\<rparr>"
proof (cases "waitsema s t = 0")
  case True
  with assms LOCKED_nz[OF assms(3)] show ?thesis by (simp add: solo_simps)
next
  case False
  with assms LOCKED_nz[OF assms(3)] show ?thesis by (simp add: solo_simps)
qed

lemma li_changes:
  "li (mstep u x) u \<noteq> li x u \<Longrightarrow>
     (pc x u = L_NEXT \<and> li (mstep u x) u = li x u + 1) \<or>
     (li (mstep u x) u = 0 \<and>
        (pc x u = L_SEMA \<or> (pc x u = L_ACQ \<and> key x \<noteq> lv x u) \<or>
         (pc x u = L_SLEEP \<and> 0 < sema x u)))"
  by (cases "pc x u")
    (auto simp: mstep_def goto_def emit_def Let_def semawakeup_def split: if_splits)

lemma li_other: "u \<noteq> w \<Longrightarrow> li (mstep u x) w = li x w"
  by (cases "pc x u")
    (auto simp: mstep_def goto_def emit_def Let_def semawakeup_def split: if_splits)

lemma li_reset_acq:
  "pc x u = L_ACQ \<Longrightarrow> key x \<noteq> lv x u \<Longrightarrow>
     li (mstep u x) u = 0 \<and> pc (mstep u x) u = L_SPIN"
  by (simp add: mstep_def goto_def emit_def Let_def)

lemma li_reset_park:
  "pc x u = L_SLEEP \<Longrightarrow> 0 < sema x u \<Longrightarrow>
     li (mstep u x) u = 0 \<and> pc (mstep u x) u = L_NEXT"
  by (simp add: mstep_def goto_def emit_def Let_def)

lemma li_init: "pc x u = L_SEMA \<Longrightarrow> li (mstep u x) u = 0"
  by (simp add: mstep_def goto_def emit_def Let_def)

lemma respin_after_fail_multi:
  assumes "pc x u = L_ACQ" "key x \<noteq> lv x u" "key x AND LOCKED \<noteq> 0" "lspin x u = ACTIVE_SPIN"
  shows "mrun (replicate 19 u) x =
     x\<lparr>li := (li x)(u := 5), lv := (lv x)(u := key x),
       nextwaitm := (nextwaitm x)(u := key x AND NOT LOCKED),
       key := u OR LOCKED,
       trace := EvPush u # EvOsYield u # EvProcYield u ACTIVE_SPIN_CNT #
                EvProcYield u ACTIVE_SPIN_CNT # EvProcYield u ACTIVE_SPIN_CNT #
                EvProcYield u ACTIVE_SPIN_CNT # trace x,
       pc := (pc x)(u := L_SLEEP)\<rparr>"
  using assms by (simp add: solo_simps)

lemma respin_after_park_multi:
  assumes "pc x u = L_SLEEP" "0 < sema x u" "key x AND LOCKED \<noteq> 0" "lspin x u = ACTIVE_SPIN"
  shows "mrun (replicate 18 u) x =
     x\<lparr>sema := (sema x)(u := sema x u - 1),
       li := (li x)(u := 5), lv := (lv x)(u := key x),
       nextwaitm := (nextwaitm x)(u := key x AND NOT LOCKED),
       key := u OR LOCKED,
       trace := EvPush u # EvOsYield u # EvProcYield u ACTIVE_SPIN_CNT #
                EvProcYield u ACTIVE_SPIN_CNT # EvProcYield u ACTIVE_SPIN_CNT # trace x,
       pc := (pc x)(u := L_SLEEP)\<rparr>"
  using assms by (simp add: solo_simps)

lemma respin_after_fail_uni:
  assumes "pc x u = L_ACQ" "key x \<noteq> lv x u" "key x AND LOCKED \<noteq> 0" "lspin x u = 0"
  shows "mrun (replicate 7 u) x =
     x\<lparr>li := (li x)(u := 1), lv := (lv x)(u := key x),
       nextwaitm := (nextwaitm x)(u := key x AND NOT LOCKED),
       key := u OR LOCKED,
       trace := EvPush u # EvOsYield u # trace x,
       pc := (pc x)(u := L_SLEEP)\<rparr>"
  using assms by (simp add: solo_simps)

lemma respin_after_park_uni:
  assumes "pc x u = L_SLEEP" "0 < sema x u" "key x AND LOCKED \<noteq> 0" "lspin x u = 0"
  shows "mrun (replicate 6 u) x =
     x\<lparr>sema := (sema x)(u := sema x u - 1),
       li := (li x)(u := 1), lv := (lv x)(u := key x),
       nextwaitm := (nextwaitm x)(u := key x AND NOT LOCKED),
       key := u OR LOCKED,
       trace := EvPush u # trace x,
       pc := (pc x)(u := L_SLEEP)\<rparr>"
  using assms by (simp add: solo_simps)


text \<open>
  C9.  A thread enters \<^verbatim>\<open>runtime.lock\<close> while the LOCKED bit is set and nobody else
  moves.  With \<open>ncpu > 1\<close> its calls are four \<^verbatim>\<open>procyield(30)\<close>, then one
  \<^verbatim>\<open>osyield\<close>, then it pushes itself on the wait list (its \<open>nextwaitm\<close> is the old
  head) and parks; with \<open>ncpu \<le> 1\<close> there is no \<^verbatim>\<open>procyield\<close>: one \<^verbatim>\<open>osyield\<close>,
  then the push.  The counter \<open>i\<close> of a thread changes only by the \<^verbatim>\<open>i++\<close> of the
  loop, or to 0 at the loop's start, at a failed acquisition compare-and-swap and at
  the return from the park; steps of other threads leave it alone.  It does become 0 at
  each of these three points: a failed acquisition compare-and-swap (lines 62-64) and a
  return from the park (lines 85-86) set it to 0.  So a thread whose acquisition has
  just failed spins again with its whole budget when the mutex is held (four
  \<^verbatim>\<open>procyield\<close> and one \<^verbatim>\<open>osyield\<close> with \<open>ncpu > 1\<close>, one \<^verbatim>\<open>osyield\<close>
  otherwise); a thread that returns from the park restarts at 0 and the \<^verbatim>\<open>i++\<close> of
  the loop makes it 1 before the next test, so it yields three times by
  \<^verbatim>\<open>procyield\<close> and once by \<^verbatim>\<open>osyield\<close> with \<open>ncpu > 1\<close>, and not at all
  otherwise, before it pushes itself again.
\<close>

theorem lock_spin_budget:
  assumes "pc s t = L_ENTER" and "\<not> sint (locks s t) < 0" and "key s AND LOCKED \<noteq> 0"
  shows "(1 < sint (ncpu s) \<longrightarrow>
            trace (mrun (replicate 22 t) s) =
              EvPush t # EvOsYield t # replicate 4 (EvProcYield t ACTIVE_SPIN_CNT) @ trace s \<and>
            pc (mrun (replicate 22 t) s) t = L_SLEEP \<and>
            key (mrun (replicate 22 t) s) = t OR LOCKED \<and>
            nextwaitm (mrun (replicate 22 t) s) t = key s AND NOT LOCKED) \<and>
         (\<not> 1 < sint (ncpu s) \<longrightarrow>
            trace (mrun (replicate 10 t) s) = EvPush t # EvOsYield t # trace s \<and>
            pc (mrun (replicate 10 t) s) t = L_SLEEP \<and>
            key (mrun (replicate 10 t) s) = t OR LOCKED \<and>
            nextwaitm (mrun (replicate 10 t) s) t = key s AND NOT LOCKED) \<and>
         (\<forall>x u. li (mstep u x) u \<noteq> li x u \<longrightarrow>
            (pc x u = L_NEXT \<and> li (mstep u x) u = li x u + 1) \<or>
            (li (mstep u x) u = 0 \<and>
               (pc x u = L_SEMA \<or> (pc x u = L_ACQ \<and> key x \<noteq> lv x u) \<or>
                (pc x u = L_SLEEP \<and> 0 < sema x u)))) \<and>
         (\<forall>x u w. u \<noteq> w \<longrightarrow> li (mstep u x) w = li x w) \<and>
         (\<forall>x u. pc x u = L_ACQ \<and> key x \<noteq> lv x u \<longrightarrow>
            li (mstep u x) u = 0 \<and> pc (mstep u x) u = L_SPIN) \<and>
         (\<forall>x u. pc x u = L_SLEEP \<and> 0 < sema x u \<longrightarrow>
            li (mstep u x) u = 0 \<and> pc (mstep u x) u = L_NEXT) \<and>
         (\<forall>x u. pc x u = L_SEMA \<longrightarrow> li (mstep u x) u = 0) \<and>
         (\<forall>x u. pc x u = L_ACQ \<and> key x \<noteq> lv x u \<and> key x AND LOCKED \<noteq> 0 \<and> lspin x u = ACTIVE_SPIN \<longrightarrow>
            trace (mrun (replicate 19 u) x) = EvPush u # EvOsYield u # replicate 4 (EvProcYield u ACTIVE_SPIN_CNT) @ trace x \<and>
            pc (mrun (replicate 19 u) x) u = L_SLEEP \<and> key (mrun (replicate 19 u) x) = u OR LOCKED) \<and>
         (\<forall>x u. pc x u = L_SLEEP \<and> 0 < sema x u \<and> key x AND LOCKED \<noteq> 0 \<and> lspin x u = ACTIVE_SPIN \<longrightarrow>
            trace (mrun (replicate 18 u) x) = EvPush u # EvOsYield u # replicate 3 (EvProcYield u ACTIVE_SPIN_CNT) @ trace x \<and>
            pc (mrun (replicate 18 u) x) u = L_SLEEP \<and> key (mrun (replicate 18 u) x) = u OR LOCKED) \<and>
         (\<forall>x u. pc x u = L_ACQ \<and> key x \<noteq> lv x u \<and> key x AND LOCKED \<noteq> 0 \<and> lspin x u = 0 \<longrightarrow>
            trace (mrun (replicate 7 u) x) = EvPush u # EvOsYield u # trace x \<and>
            pc (mrun (replicate 7 u) x) u = L_SLEEP \<and> key (mrun (replicate 7 u) x) = u OR LOCKED) \<and>
         (\<forall>x u. pc x u = L_SLEEP \<and> 0 < sema x u \<and> key x AND LOCKED \<noteq> 0 \<and> lspin x u = 0 \<longrightarrow>
            trace (mrun (replicate 6 u) x) = EvPush u # trace x \<and>
            pc (mrun (replicate 6 u) x) u = L_SLEEP \<and> key (mrun (replicate 6 u) x) = u OR LOCKED)"
proof -
  have c1: "(1 < sint (ncpu s) \<longrightarrow>
            trace (mrun (replicate 22 t) s) =
              EvPush t # EvOsYield t # replicate 4 (EvProcYield t ACTIVE_SPIN_CNT) @ trace s \<and>
            pc (mrun (replicate 22 t) s) t = L_SLEEP \<and>
            key (mrun (replicate 22 t) s) = t OR LOCKED \<and>
            nextwaitm (mrun (replicate 22 t) s) t = key s AND NOT LOCKED)"
  proof
    assume c: "1 < sint (ncpu s)"
    show "trace (mrun (replicate 22 t) s) =
              EvPush t # EvOsYield t # replicate 4 (EvProcYield t ACTIVE_SPIN_CNT) @ trace s \<and>
            pc (mrun (replicate 22 t) s) t = L_SLEEP \<and>
            key (mrun (replicate 22 t) s) = t OR LOCKED \<and>
            nextwaitm (mrun (replicate 22 t) s) t = key s AND NOT LOCKED"
      unfolding spin_multi[OF assms c] by (simp add: replicate_num)
  qed
  have c2: "(\<not> 1 < sint (ncpu s) \<longrightarrow>
            trace (mrun (replicate 10 t) s) = EvPush t # EvOsYield t # trace s \<and>
            pc (mrun (replicate 10 t) s) t = L_SLEEP \<and>
            key (mrun (replicate 10 t) s) = t OR LOCKED \<and>
            nextwaitm (mrun (replicate 10 t) s) t = key s AND NOT LOCKED)"
  proof
    assume c: "\<not> 1 < sint (ncpu s)"
    show "trace (mrun (replicate 10 t) s) = EvPush t # EvOsYield t # trace s \<and>
            pc (mrun (replicate 10 t) s) t = L_SLEEP \<and>
            key (mrun (replicate 10 t) s) = t OR LOCKED \<and>
            nextwaitm (mrun (replicate 10 t) s) t = key s AND NOT LOCKED"
      unfolding spin_uni[OF assms c] by simp
  qed
  have c3: "(\<forall>x u. li (mstep u x) u \<noteq> li x u \<longrightarrow>
            (pc x u = L_NEXT \<and> li (mstep u x) u = li x u + 1) \<or>
            (li (mstep u x) u = 0 \<and>
               (pc x u = L_SEMA \<or> (pc x u = L_ACQ \<and> key x \<noteq> lv x u) \<or>
                (pc x u = L_SLEEP \<and> 0 < sema x u))))"
    using li_changes by blast
  have c4: "(\<forall>x u w. u \<noteq> w \<longrightarrow> li (mstep u x) w = li x w)"
    using li_other by blast
  have c5: "(\<forall>x u. pc x u = L_ACQ \<and> key x \<noteq> lv x u \<longrightarrow>
            li (mstep u x) u = 0 \<and> pc (mstep u x) u = L_SPIN)"
    using li_reset_acq by blast
  have c6: "(\<forall>x u. pc x u = L_SLEEP \<and> 0 < sema x u \<longrightarrow>
            li (mstep u x) u = 0 \<and> pc (mstep u x) u = L_NEXT)"
    using li_reset_park by blast
  have c7: "(\<forall>x u. pc x u = L_SEMA \<longrightarrow> li (mstep u x) u = 0)"
    using li_init by blast
  have c8: "(\<forall>x u. pc x u = L_ACQ \<and> key x \<noteq> lv x u \<and> key x AND LOCKED \<noteq> 0 \<and> lspin x u = ACTIVE_SPIN \<longrightarrow>
            trace (mrun (replicate 19 u) x) = EvPush u # EvOsYield u # replicate 4 (EvProcYield u ACTIVE_SPIN_CNT) @ trace x \<and>
            pc (mrun (replicate 19 u) x) u = L_SLEEP \<and> key (mrun (replicate 19 u) x) = u OR LOCKED)"
    by (intro allI impI, elim conjE) (simp add: respin_after_fail_multi, simp add: replicate_num)
  have c9: "(\<forall>x u. pc x u = L_SLEEP \<and> 0 < sema x u \<and> key x AND LOCKED \<noteq> 0 \<and> lspin x u = ACTIVE_SPIN \<longrightarrow>
            trace (mrun (replicate 18 u) x) = EvPush u # EvOsYield u # replicate 3 (EvProcYield u ACTIVE_SPIN_CNT) @ trace x \<and>
            pc (mrun (replicate 18 u) x) u = L_SLEEP \<and> key (mrun (replicate 18 u) x) = u OR LOCKED)"
    by (intro allI impI, elim conjE) (simp add: respin_after_park_multi, simp add: replicate_num)
  have c10: "(\<forall>x u. pc x u = L_ACQ \<and> key x \<noteq> lv x u \<and> key x AND LOCKED \<noteq> 0 \<and> lspin x u = 0 \<longrightarrow>
            trace (mrun (replicate 7 u) x) = EvPush u # EvOsYield u # trace x \<and>
            pc (mrun (replicate 7 u) x) u = L_SLEEP \<and> key (mrun (replicate 7 u) x) = u OR LOCKED)"
    by (intro allI impI, elim conjE) (simp add: respin_after_fail_uni)
  have c11: "(\<forall>x u. pc x u = L_SLEEP \<and> 0 < sema x u \<and> key x AND LOCKED \<noteq> 0 \<and> lspin x u = 0 \<longrightarrow>
            trace (mrun (replicate 6 u) x) = EvPush u # trace x \<and>
            pc (mrun (replicate 6 u) x) u = L_SLEEP \<and> key (mrun (replicate 6 u) x) = u OR LOCKED)"
    by (intro allI impI, elim conjE) (simp add: respin_after_park_uni)
  show ?thesis
    by (intro conjI c1 c2 c3 c4 c5 c6 c7 c8 c9 c10 c11)
qed

theorem lock_spin_budget_witness:
  "pc (mrun [4, 4, 4, 2] (minit 2 1 0)) 2 = L_ENTER \<and>
   \<not> sint (locks (mrun [4, 4, 4, 2] (minit 2 1 0)) 2) < 0 \<and>
   key (mrun [4, 4, 4, 2] (minit 2 1 0)) AND LOCKED \<noteq> 0 \<and>
   1 < sint (ncpu (mrun [4, 4, 4, 2] (minit 2 1 0))) \<and>
   trace (mrun (replicate 22 2) (mrun [4, 4, 4, 2] (minit 2 1 0))) =
     [EvPush 2, EvOsYield 2, EvProcYield 2 30, EvProcYield 2 30, EvProcYield 2 30,
      EvProcYield 2 30, EvAcquire 4] \<and>
   pc (mrun (replicate 22 2) (mrun [4, 4, 4, 2] (minit 2 1 0))) 2 = L_SLEEP \<and>
   key (mrun (replicate 22 2) (mrun [4, 4, 4, 2] (minit 2 1 0))) = 3 \<and>
   nextwaitm (mrun (replicate 22 2) (mrun [4, 4, 4, 2] (minit 2 1 0))) 2 = 0 \<and>
   pc (mrun (replicate 3 4 @ replicate 23 2 @ replicate 6 4 @ replicate 3 6) (minit 2 1 0)) 2 = L_SLEEP \<and>
   0 < sema (mrun (replicate 3 4 @ replicate 23 2 @ replicate 6 4 @ replicate 3 6) (minit 2 1 0)) 2 \<and>
   key (mrun (replicate 3 4 @ replicate 23 2 @ replicate 6 4 @ replicate 3 6) (minit 2 1 0)) AND LOCKED \<noteq> 0 \<and>
   lspin (mrun (replicate 3 4 @ replicate 23 2 @ replicate 6 4 @ replicate 3 6) (minit 2 1 0)) 2 = ACTIVE_SPIN \<and>
   li (mrun (replicate 3 4 @ replicate 23 2 @ replicate 6 4 @ replicate 3 6) (minit 2 1 0)) 2 = 5 \<and>
   li (mstep 2 (mrun (replicate 3 4 @ replicate 23 2 @ replicate 6 4 @ replicate 3 6) (minit 2 1 0))) 2 = 0 \<and>
   trace (mrun (replicate 18 2) (mrun (replicate 3 4 @ replicate 23 2 @ replicate 6 4 @ replicate 3 6) (minit 2 1 0))) =
     [EvPush 2, EvOsYield 2, EvProcYield 2 30, EvProcYield 2 30, EvProcYield 2 30] @
     trace (mrun (replicate 3 4 @ replicate 23 2 @ replicate 6 4 @ replicate 3 6) (minit 2 1 0))"
proof -
  have s0: "mrun [4, 4, 4, 2] (minit 2 1 0) =
      (minit 2 1 0)\<lparr>key := LOCKED, locks := (\<lambda>_. 0)(4 := 1),
        pc := (\<lambda>_. W_IDLE)(4 := L_RET, 2 := L_ENTER), trace := [EvAcquire 4]\<rparr>"
    by (simp add: solo_simps minit_def)
  have pre: "pc (mrun [4, 4, 4, 2] (minit 2 1 0)) 2 = L_ENTER"
    "\<not> sint (locks (mrun [4, 4, 4, 2] (minit 2 1 0)) 2) < 0"
    "key (mrun [4, 4, 4, 2] (minit 2 1 0)) AND LOCKED \<noteq> 0"
    "1 < sint (ncpu (mrun [4, 4, 4, 2] (minit 2 1 0)))"
    unfolding s0 by (simp_all add: minit_def LOCKED_def)
  define x where "x = mrun (replicate 3 4 @ replicate 23 2 @ replicate 6 4 @ replicate 3 6) (minit 2 1 0)"
  have px: "pc x 2 = L_SLEEP" "0 < sema x 2" "key x AND LOCKED \<noteq> 0" "lspin x 2 = ACTIVE_SPIN"
    "li x 2 = 5"
    unfolding x_def by (simp_all add: solo_simps mrun_append minit_def LOCKED_def semacreate_def)
  note budget = lock_spin_budget[OF pre(1-3)]
  have a: "trace (mrun (replicate 22 2) (mrun [4, 4, 4, 2] (minit 2 1 0))) =
      EvPush 2 # EvOsYield 2 # replicate 4 (EvProcYield 2 ACTIVE_SPIN_CNT) @ trace (mrun [4, 4, 4, 2] (minit 2 1 0)) \<and>
    pc (mrun (replicate 22 2) (mrun [4, 4, 4, 2] (minit 2 1 0))) 2 = L_SLEEP \<and>
    key (mrun (replicate 22 2) (mrun [4, 4, 4, 2] (minit 2 1 0))) = 2 OR LOCKED \<and>
    nextwaitm (mrun (replicate 22 2) (mrun [4, 4, 4, 2] (minit 2 1 0))) 2 = key (mrun [4, 4, 4, 2] (minit 2 1 0)) AND NOT LOCKED"
    using budget pre(4) by blast
  have b: "li (mstep 2 x) 2 = 0" using budget px(1,2) by blast
  have c: "trace (mrun (replicate 18 2) x) =
      EvPush 2 # EvOsYield 2 # replicate 3 (EvProcYield 2 ACTIVE_SPIN_CNT) @ trace x"
    using budget px(1-4) by blast
  have a': "trace (mrun (replicate 22 2) (mrun [4, 4, 4, 2] (minit 2 1 0))) =
     [EvPush 2, EvOsYield 2, EvProcYield 2 30, EvProcYield 2 30, EvProcYield 2 30,
      EvProcYield 2 30, EvAcquire 4] \<and>
   pc (mrun (replicate 22 2) (mrun [4, 4, 4, 2] (minit 2 1 0))) 2 = L_SLEEP \<and>
   key (mrun (replicate 22 2) (mrun [4, 4, 4, 2] (minit 2 1 0))) = 3 \<and>
   nextwaitm (mrun (replicate 22 2) (mrun [4, 4, 4, 2] (minit 2 1 0))) 2 = 0"
    using a unfolding s0 by (simp add: minit_def LOCKED_def ACTIVE_SPIN_CNT_def replicate_num)
  have c': "trace (mrun (replicate 18 2) x) =
     [EvPush 2, EvOsYield 2, EvProcYield 2 30, EvProcYield 2 30, EvProcYield 2 30] @ trace x"
    using c by (simp add: ACTIVE_SPIN_CNT_def replicate_num)
  show ?thesis using pre a' px b c' unfolding x_def by simp
qed
section \<open>The invariant of lock and unlock under interleaving\<close>

lemmas step_simps = mstep_def goto_def emit_def Let_def semawakeup_def

lemma and_not_LOCKED_valid: "t AND LOCKED = 0 \<Longrightarrow> (t OR LOCKED) AND NOT LOCKED = t"
  unfolding LOCKED_def by (auto simp: bit_eq_iff bit_simps)

lemma or_and_not_LOCKED: "(v OR LOCKED) AND NOT LOCKED = v AND NOT LOCKED"
  by (auto simp: bit_eq_iff bit_simps)

lemma unlocked_and_not: "v AND LOCKED = 0 \<Longrightarrow> v AND NOT LOCKED = v"
  unfolding LOCKED_def by (auto simp: bit_eq_iff bit_simps)

lemma or_and_LOCKED: "(v OR LOCKED) AND LOCKED = LOCKED"
  by (auto simp: bit_eq_iff bit_simps)

lemma and_LOCKED_cases: "(v AND LOCKED \<noteq> 0) = (v AND LOCKED = LOCKED)"
  unfolding LOCKED_def by (simp add: and_one_eq)

lemma LOCKED_split: "(v AND NOT LOCKED) OR (v AND LOCKED) = v"
  by (metis bit.conj_disj_distrib bit.disj_cancel_left and.right_neutral or.commute)

lemma ptr_bits_nonnull: "v \<noteq> 0 \<Longrightarrow> v \<noteq> LOCKED \<Longrightarrow> v AND NOT LOCKED \<noteq> 0"
  using LOCKED_split[of v] and_LOCKED_cases[of v] by auto

lemma LOCKED_simps: "LOCKED AND NOT LOCKED = 0" "LOCKED AND LOCKED = LOCKED" "LOCKED \<noteq> 0"
  "(0::uintptr) AND LOCKED = 0" "(0::uintptr) AND NOT LOCKED = 0" "0 \<noteq> LOCKED"
  by (simp_all add: LOCKED_def)

lemma chain_nil: "is_chain nxt 0 xs \<Longrightarrow> xs = []"
  by (cases xs) auto

lemma chain_nonnil:
  "is_chain nxt p xs \<Longrightarrow> p \<noteq> 0 \<Longrightarrow> \<exists>ys. xs = p # ys \<and> is_chain nxt (nxt p) ys"
  by (cases xs) auto

lemma chain_upd: "t \<notin> set xs \<Longrightarrow> is_chain (nxt(t := x)) p xs = is_chain nxt p xs"
  by (induction xs arbitrary: p) auto

lemma chain_ptr_unlocked:
  "is_chain nxt p xs \<Longrightarrow> \<forall>x\<in>set xs. validM x \<Longrightarrow> p AND LOCKED = 0"
  by (cases xs) (auto simp: validM_def)

lemma unlocker_target:
  assumes "minv s" "pc s u = U_READNEXT \<or> pc s u = U_CAS"
  shows "validM (ump s u) \<and> pc s (ump s u) = L_SLEEP \<and> ump s u \<in> set (wq s)"
  using assms unfolding minv_def inv_unlock_def inv_queue_def by blast

lemma readnext_step:
  assumes "minv s" "pc s t = U_READNEXT"
  shows "mstep t s = goto t U_CAS (s\<lparr>unext := (unext s)(t := nextwaitm s (ump s t))\<rparr>)"
proof -
  have "ump s t \<noteq> 0" using unlocker_target[OF assms(1), of t] assms(2) by (auto simp: validM_def)
  then show ?thesis using assms(2) by (simp add: mstep_def)
qed

lemma dec_step:
  assumes "minv s" "pc s t = U_DEC"
  shows "mstep t s = goto t U_RET
     (if preempt s t
      then s\<lparr>locks := (locks s)(t := 0), stackguard0 := (stackguard0 s)(t := StackPreempt s)\<rparr>
      else s\<lparr>locks := (locks s)(t := 0)\<rparr>)"
proof -
  have "locks s t = 1" using assms by (auto simp: minv_def inv_pc_def)
  then show ?thesis using assms(2) by (simp add: mstep_def Let_def)
qed

lemma enter_step:
  assumes "minv s" "pc s t = L_ENTER"
  shows "mstep t s = goto t L_FAST (s\<lparr>locks := (locks s)(t := 1)\<rparr>)"
proof -
  have "locks s t = 0" using assms by (auto simp: minv_def inv_pc_def)
  then show ?thesis using assms(2) by (simp add: mstep_def Let_def)
qed

lemma inv_pc_step:
  assumes "minv s" "validM t" shows "inv_pc (mstep t s)"
proof -
  have ip: "inv_pc s" using assms(1) by (simp add: minv_def)
  show ?thesis
  proof (cases "pc s t")
    case U_READNEXT
    show ?thesis using ip U_READNEXT unfolding readnext_step[OF assms(1) U_READNEXT]
      by (auto simp: goto_def inv_pc_def split: if_splits)
  qed (use ip in \<open>auto simp: step_simps inv_pc_def split: if_splits\<close>)
qed


lemma pop_shape:
  assumes "minv s" "pc s t = U_CAS" "key s = lv s t"
  shows "\<exists>ys. wq s = ump s t # ys \<and> is_chain (nextwaitm s) (unext s t) ys \<and>
           unext s t AND LOCKED = 0"
proof -
  have tgt: "ump s t \<in> set (wq s)" "ump s t = lv s t AND NOT LOCKED"
    "unext s t = nextwaitm s (ump s t)"
    using assms(1,2) by (auto simp: minv_def inv_unlock_def)
  have q: "is_chain (nextwaitm s) (key s AND NOT LOCKED) (wq s)" "\<forall>x\<in>set (wq s). validM x"
    using assms(1) by (auto simp: minv_def inv_queue_def)
  have nz: "ump s t \<noteq> 0" using q(2) tgt(1) by (auto simp: validM_def)
  from chain_nonnil[OF q(1)] assms(3) tgt(2) nz obtain ys where
    ys: "wq s = ump s t # ys" "is_chain (nextwaitm s) (nextwaitm s (ump s t)) ys"
    by auto
  have "\<forall>x\<in>set ys. validM x" using q(2) ys(1) by simp
  from chain_ptr_unlocked[OF ys(2) this] ys show ?thesis by (simp add: tgt(3))
qed

lemma pc_other: "u \<noteq> t \<Longrightarrow> pc (mstep t s) u = pc s u"
  by (cases "pc s t") (auto simp: step_simps split: if_splits)

lemma inv_bit_frame:
  assumes "inv_bit s" and "\<forall>u. u \<noteq> t \<longrightarrow> pc s' u = pc s u"
    and "((key s' AND LOCKED \<noteq> 0) = (key s AND LOCKED \<noteq> 0) \<and>
            holding (pc s' t) = holding (pc s t)) \<or>
         (key s AND LOCKED = 0 \<and> key s' AND LOCKED \<noteq> 0 \<and> holding (pc s' t)) \<or>
         (holding (pc s t) \<and> \<not> holding (pc s' t) \<and> key s' AND LOCKED = 0)"
  shows "inv_bit s'"
proof -
  have h: "\<And>u. u \<noteq> t \<Longrightarrow> holding (pc s' u) = holding (pc s u)"
    using assms(2) by simp
  have ex: "(key s AND LOCKED \<noteq> 0) = (\<exists>u. holding (pc s u))"
    and un: "\<And>u w. holding (pc s u) \<Longrightarrow> holding (pc s w) \<Longrightarrow> u = w"
    using assms(1) by (auto simp: inv_bit_def)
  from assms(3) show ?thesis
  proof (elim disjE conjE)
    assume a: "(key s' AND LOCKED \<noteq> 0) = (key s AND LOCKED \<noteq> 0)"
      "holding (pc s' t) = holding (pc s t)"
    then have "\<And>u. holding (pc s' u) = holding (pc s u)" using h by (case_tac "u = t") auto
    then show ?thesis using a(1) ex un by (simp add: inv_bit_def)
  next
    assume a: "key s AND LOCKED = 0" "key s' AND LOCKED \<noteq> 0" "holding (pc s' t)"
    then have no: "\<And>u. \<not> holding (pc s u)" using ex by auto
    then have "\<And>u. holding (pc s' u) \<Longrightarrow> u = t" using h by (case_tac "u = t") auto
    then show ?thesis using a by (auto simp: inv_bit_def)
  next
    assume a: "holding (pc s t)" "\<not> holding (pc s' t)" "key s' AND LOCKED = 0"
    then have "\<And>u. \<not> holding (pc s' u)" using h un by (case_tac "u = t") auto
    then show ?thesis using a by (auto simp: inv_bit_def)
  qed
qed

lemma inv_bit_step:
  assumes "minv s" "validM t" shows "inv_bit (mstep t s)"
proof -
  have il: "inv_lock s" and ib: "inv_bit s" using assms(1) by (simp_all add: minv_def)
  have po: "\<forall>u. u \<noteq> t \<longrightarrow> pc (mstep t s) u = pc s u" by (simp add: pc_other)
  show ?thesis
  proof (cases "pc s t")
    case L_FAST
    then show ?thesis
      by (intro inv_bit_frame[OF ib po]) (auto simp: step_simps LOCKED_simps)
  next
    case L_ACQ
    then have "lv s t AND LOCKED = 0" using il by (simp add: inv_lock_def)
    then show ?thesis using L_ACQ
      by (intro inv_bit_frame[OF ib po]) (auto simp: step_simps or_and_LOCKED LOCKED_simps)
  next
    case L_PUSH
    then have "lv s t AND LOCKED \<noteq> 0" using il by (simp add: inv_lock_def)
    then show ?thesis using L_PUSH
      by (intro inv_bit_frame[OF ib po]) (auto simp: step_simps or_and_LOCKED LOCKED_simps)
  next
    case U_CAS0
    then show ?thesis
      by (intro inv_bit_frame[OF ib po]) (auto simp: step_simps LOCKED_simps)
  next
    case U_CAS
    have "key s = lv s t \<Longrightarrow> unext s t AND LOCKED = 0"
      using pop_shape[OF assms(1) U_CAS] by blast
    then show ?thesis using U_CAS
      by (intro inv_bit_frame[OF ib po]) (auto simp: step_simps)
  next
    case U_READNEXT
    show ?thesis using U_READNEXT
      by (intro inv_bit_frame[OF ib po]) (simp add: readnext_step[OF assms(1) U_READNEXT] goto_def)
  qed (intro inv_bit_frame[OF ib po]; simp add: step_simps)+
qed

lemma inv_lock_step:
  assumes "minv s" "validM t" shows "inv_lock (mstep t s)"
proof -
  have il: "inv_lock s" using assms(1) by (simp_all add: minv_def)
  show ?thesis
  proof (cases "pc s t")
    case L_SPIN
    have a: "\<not> (0::uint32) < 0 + PASSIVE_SPIN \<Longrightarrow> False"
      "\<not> (0::uint32) < ACTIVE_SPIN \<Longrightarrow> False"
      by (simp_all add: PASSIVE_SPIN_def ACTIVE_SPIN_def)
    show ?thesis using il L_SPIN a
      by (auto simp: step_simps inv_lock_def split: if_splits)
  qed (use il in \<open>auto simp: step_simps inv_lock_def split: if_splits\<close>)
qed


lemma queued_stutter:
  assumes "minv s" "t \<in> set (wq s)" shows "mstep t s = s"
proof -
  have "pc s t = L_SLEEP" "sema s t = 0"
    using assms by (auto simp: minv_def inv_queue_def)
  then show ?thesis by (simp add: mstep_def)
qed

lemma not_sleeping_not_queued: "minv s \<Longrightarrow> pc s t \<noteq> L_SLEEP \<Longrightarrow> t \<notin> set (wq s)"
  by (auto simp: minv_def inv_queue_def)

lemma inv_queue_step:
  assumes "minv s" "validM t" shows "inv_queue (mstep t s)"
proof (cases "t \<in> set (wq s)")
  case True
  then show ?thesis using queued_stutter[OF assms(1) True] assms(1) by (simp add: minv_def)
next
  case nq: False
  have iq: "inv_queue s" and il: "inv_lock s" and iw: "inv_wake s"
    using assms(1) by (simp_all add: minv_def)
  show ?thesis
  proof (cases "pc s t")
    case L_PUSH
    have l: "lv s t AND LOCKED \<noteq> 0" "nextwaitm s t = lv s t AND NOT LOCKED"
      using il L_PUSH by (auto simp: inv_lock_def)
    have w: "sema s t = 0" "\<forall>u. pc s u = U_WAKE \<longrightarrow> ump s u \<noteq> t"
      using iw L_PUSH by (auto simp: inv_wake_def)
    have v: "t \<noteq> 0" "(t OR LOCKED) AND NOT LOCKED = t"
      using assms(2) by (auto simp: validM_def and_not_LOCKED_valid)
    show ?thesis using iq nq L_PUSH l w v assms(2)
      by (auto simp: step_simps inv_queue_def wq_def)
  next
    case U_CAS
    show ?thesis
    proof (cases "key s = lv s t")
      case True
      from pop_shape[OF assms(1) U_CAS True] obtain ys where
        ys: "wq s = ump s t # ys" "is_chain (nextwaitm s) (unext s t) ys"
          "unext s t AND LOCKED = 0" by blast
      have k: "unext s t AND NOT LOCKED = unext s t" using ys(3) by (rule unlocked_and_not)
      show ?thesis using iq nq U_CAS True ys(1,2) k
        by (auto simp: step_simps inv_queue_def wq_def)
    next
      case False
      then show ?thesis using iq nq U_CAS
        by (auto simp: step_simps inv_queue_def wq_def)
    qed
  next
    case U_WAKE
    show ?thesis using iq nq U_WAKE
      by (auto simp: step_simps inv_queue_def wq_def)
  next
    case U_READNEXT
    show ?thesis using iq nq U_READNEXT unfolding readnext_step[OF assms(1) U_READNEXT]
      by (auto simp: goto_def inv_queue_def wq_def)
  qed (use iq nq in \<open>auto simp: step_simps inv_queue_def wq_def chain_upd or_and_not_LOCKED
         LOCKED_simps split: if_splits\<close>)
qed


lemma inv_wake_alt:
  "inv_wake s = ((\<forall>x. 0 < sema s x \<longrightarrow> pc s x = L_SLEEP \<and> sema s x = 1 \<and> (\<forall>u. \<not> waker s u x)) \<and>
     (\<forall>u x. waker s u x \<longrightarrow> pc s x = L_SLEEP \<and> (\<forall>u'. waker s u' x \<longrightarrow> u' = u)) \<and>
     (\<forall>x. pc s x = L_SLEEP \<longrightarrow> x \<in> set (wq s) \<or> 0 < sema s x \<or> (\<exists>u. waker s u x)))"
  unfolding inv_wake_def waker_def by (intro iffI conjI allI impI; (elim conjE)?; blast)

lemma inv_wake_frame:
  assumes "inv_wake s" "wq s' = wq s" "sema s' = sema s"
    "\<forall>u. u \<noteq> t \<longrightarrow> pc s' u = pc s u \<and> ump s' u = ump s u"
    "pc s t \<noteq> L_SLEEP" "pc s t \<noteq> U_WAKE" "pc s' t \<noteq> L_SLEEP" "pc s' t \<noteq> U_WAKE"
  shows "inv_wake s'"
proof -
  have w: "\<And>u x. waker s' u x = waker s u x"
    using assms(4,6,8) by (case_tac "u = t") (auto simp: waker_def)
  have p: "\<And>x. (pc s' x = L_SLEEP) = (pc s x = L_SLEEP)"
    using assms(4,5,7) by (case_tac "x = t") auto
  show ?thesis using assms(1) unfolding inv_wake_alt w p assms(2,3) .
qed

lemma inv_wake_step:
  assumes "minv s" "validM t" shows "inv_wake (mstep t s)"
proof (cases "t \<in> set (wq s)")
  case True
  then show ?thesis using queued_stutter[OF assms(1) True] assms(1) by (simp add: minv_def)
next
  case nq: False
  have iq: "inv_queue s" and il: "inv_lock s" and iw: "inv_wake s"
    using assms(1) by (simp_all add: minv_def)
  show ?thesis
  proof (cases "pc s t")
    case L_PUSH
    show ?thesis
    proof (cases "key s = lv s t")
      case True
      have l: "lv s t AND LOCKED \<noteq> 0" using il L_PUSH by (auto simp: inv_lock_def)
      have w: "\<And>u x. waker (mstep t s) u x = waker s u x"
        using L_PUSH True l by (auto simp: step_simps waker_def)
      have p: "\<And>x. (pc (mstep t s) x = L_SLEEP) = (x = t \<or> pc s x = L_SLEEP)"
        using L_PUSH True l by (auto simp: step_simps)
      have q: "wq (mstep t s) = t # wq s" "sema (mstep t s) = sema s"
        using L_PUSH True l by (auto simp: step_simps wq_def)
      have t: "sema s t = 0" using iw L_PUSH by (auto simp: inv_wake_def)
      show ?thesis using iw t unfolding inv_wake_alt w p q by auto
    next
      case False
      then show ?thesis using L_PUSH
        by (intro inv_wake_frame[OF iw, of _ t]) (auto simp: step_simps wq_def)
    qed
  next
    case U_CAS
    show ?thesis
    proof (cases "key s = lv s t")
      case True
      from pop_shape[OF assms(1) U_CAS True] obtain ys where
        ys: "wq s = ump s t # ys" by blast
      have m: "pc s (ump s t) = L_SLEEP" "sema s (ump s t) = 0"
        "\<forall>u. \<not> waker s u (ump s t)"
        using iq ys by (auto simp: inv_queue_def waker_def)
      have w: "\<And>u x. waker (mstep t s) u x = (waker s u x \<or> (u = t \<and> x = ump s t))"
        using U_CAS True by (auto simp: step_simps waker_def)
      have p: "\<And>x. (pc (mstep t s) x = L_SLEEP) = (pc s x = L_SLEEP)"
        using U_CAS True by (auto simp: step_simps)
      have q: "wq (mstep t s) = ys" "sema (mstep t s) = sema s"
        using U_CAS True ys by (auto simp: step_simps wq_def)
      have iw': "(\<forall>x. 0 < sema s x \<longrightarrow> pc s x = L_SLEEP \<and> sema s x = 1 \<and> (\<forall>u. \<not> waker s u x))"
        "(\<forall>u x. waker s u x \<longrightarrow> pc s x = L_SLEEP \<and> (\<forall>u'. waker s u' x \<longrightarrow> u' = u))"
        "(\<forall>x. pc s x = L_SLEEP \<longrightarrow> x = ump s t \<or> x \<in> set ys \<or> 0 < sema s x \<or> (\<exists>u. waker s u x))"
        using iw ys unfolding inv_wake_alt by auto
      show ?thesis unfolding inv_wake_alt w p q
      proof (intro conjI allI impI)
        fix x assume "0 < sema s x"
        then show "pc s x = L_SLEEP" "sema s x = 1" using iw'(1) by auto
      next
        fix x u assume "0 < sema s x"
        then show "\<not> (waker s u x \<or> u = t \<and> x = ump s t)" using iw'(1) m(2) by auto
      next
        fix u x assume "waker s u x \<or> u = t \<and> x = ump s t"
        then show "pc s x = L_SLEEP" using iw'(2) m(1) by auto
      next
        fix u x u' assume "waker s u x \<or> u = t \<and> x = ump s t"
          "waker s u' x \<or> u' = t \<and> x = ump s t"
        then show "u' = u" using iw'(2) m(3) by blast
      next
        fix x assume "pc s x = L_SLEEP"
        then show "x \<in> set ys \<or> 0 < sema s x \<or> (\<exists>u. waker s u x \<or> u = t \<and> x = ump s t)"
          using iw'(3) by blast
      qed
    next
      case False
      then show ?thesis using U_CAS
        by (intro inv_wake_frame[OF iw, of _ t]) (auto simp: step_simps wq_def)
    qed
  next
    case U_WAKE
    have wt: "waker s t (ump s t)" using U_WAKE by (simp add: waker_def)
    have w: "\<And>u x. waker (mstep t s) u x = (waker s u x \<and> u \<noteq> t)"
      using U_WAKE by (auto simp: step_simps waker_def)
    have p: "\<And>x. (pc (mstep t s) x = L_SLEEP) = (pc s x = L_SLEEP)"
      using U_WAKE by (auto simp: step_simps)
    have q: "wq (mstep t s) = wq s"
      "\<And>x. sema (mstep t s) x = (if x = ump s t then sema s x + 1 else sema s x)"
      using U_WAKE by (auto simp: step_simps wq_def)
    have iw': "(\<forall>x. 0 < sema s x \<longrightarrow> pc s x = L_SLEEP \<and> sema s x = 1 \<and> (\<forall>u. \<not> waker s u x))"
      "(\<forall>u x. waker s u x \<longrightarrow> pc s x = L_SLEEP \<and> (\<forall>u'. waker s u' x \<longrightarrow> u' = u))"
      "(\<forall>x. pc s x = L_SLEEP \<longrightarrow> x \<in> set (wq s) \<or> 0 < sema s x \<or> (\<exists>u. waker s u x))"
      using iw unfolding inv_wake_alt by auto
    have z: "sema s (ump s t) = 0" using iw'(1) wt by (cases "sema s (ump s t)") auto
    show ?thesis unfolding inv_wake_alt w p q
    proof (intro conjI allI impI)
      fix x assume "0 < (if x = ump s t then sema s x + 1 else sema s x)"
      then show "pc s x = L_SLEEP" using iw'(1,2) wt by (cases "x = ump s t") auto
    next
      fix x assume "0 < (if x = ump s t then sema s x + 1 else sema s x)"
      then show "(if x = ump s t then sema s x + 1 else sema s x) = 1"
        using iw'(1) z by (cases "x = ump s t") auto
    next
      fix x u assume "0 < (if x = ump s t then sema s x + 1 else sema s x)"
      then show "\<not> (waker s u x \<and> u \<noteq> t)"
        using iw'(1,2) wt by (cases "x = ump s t") auto
    next
      fix u x assume "waker s u x \<and> u \<noteq> t"
      then show "pc s x = L_SLEEP" using iw'(2) by auto
    next
      fix u x u' assume "waker s u x \<and> u \<noteq> t" "waker s u' x \<and> u' \<noteq> t"
      then show "u' = u" using iw'(2) by blast
    next
      fix x assume a: "pc s x = L_SLEEP"
      show "x \<in> set (wq s) \<or> 0 < (if x = ump s t then sema s x + 1 else sema s x) \<or>
              (\<exists>u. waker s u x \<and> u \<noteq> t)"
      proof (cases "x = ump s t")
        case True then show ?thesis by simp
      next
        case False
        then have "\<not> waker s t x" by (auto simp: waker_def)
        then show ?thesis using iw'(3) a False by auto
      qed
    qed
  next
    case L_SLEEP
    show ?thesis
    proof (cases "0 < sema s t")
      case True
      have iw': "(\<forall>x. 0 < sema s x \<longrightarrow> pc s x = L_SLEEP \<and> sema s x = 1 \<and> (\<forall>u. \<not> waker s u x))"
        "(\<forall>u x. waker s u x \<longrightarrow> pc s x = L_SLEEP \<and> (\<forall>u'. waker s u' x \<longrightarrow> u' = u))"
        "(\<forall>x. pc s x = L_SLEEP \<longrightarrow> x \<in> set (wq s) \<or> 0 < sema s x \<or> (\<exists>u. waker s u x))"
        using iw unfolding inv_wake_alt by auto
      have t1: "sema s t - 1 = 0" "\<forall>u. \<not> waker s u t" using iw'(1) True by auto
      have w: "\<And>u x. waker (mstep t s) u x = waker s u x"
        using L_SLEEP True by (auto simp: step_simps waker_def)
      have p: "\<And>x. (pc (mstep t s) x = L_SLEEP) = (x \<noteq> t \<and> pc s x = L_SLEEP)"
        using L_SLEEP True by (auto simp: step_simps)
      have q: "wq (mstep t s) = wq s"
        "\<And>x. sema (mstep t s) x = (if x = t then 0 else sema s x)"
        using L_SLEEP True t1(1) by (auto simp: step_simps wq_def)
      show ?thesis unfolding inv_wake_alt w p q
      proof (intro conjI allI impI)
        fix x assume "0 < (if x = t then 0 else sema s x)"
        then show "x \<noteq> t" "pc s x = L_SLEEP" "(if x = t then 0 else sema s x) = 1"
          using iw'(1) by (auto split: if_splits)
      next
        fix x u assume "0 < (if x = t then 0 else sema s x)"
        then show "\<not> waker s u x" using iw'(1) by (auto split: if_splits)
      next
        fix u x assume "waker s u x"
        then show "x \<noteq> t" "pc s x = L_SLEEP" using iw'(2) t1 by auto
      next
        fix u x u' assume "waker s u x" "waker s u' x"
        then show "u' = u" using iw'(2) by blast
      next
        fix x assume "x \<noteq> t \<and> pc s x = L_SLEEP"
        then show "x \<in> set (wq s) \<or> 0 < (if x = t then 0 else sema s x) \<or>
              (\<exists>u. waker s u x)" using iw'(3) by auto
      qed
    next
      case False
      then have "mstep t s = s" using L_SLEEP by (simp add: mstep_def)
      then show ?thesis using iw by simp
    qed
  next
    case U_READNEXT
    show ?thesis using U_READNEXT unfolding readnext_step[OF assms(1) U_READNEXT]
      by (intro inv_wake_frame[OF iw, of _ t]) (auto simp: goto_def wq_def)
  qed (intro inv_wake_frame[OF iw, of _ t]; simp add: step_simps wq_def)+
qed


lemma inv_unlock_frame:
  assumes "inv_unlock s"
    "\<forall>u. u \<noteq> t \<longrightarrow> pc s' u = pc s u \<and> ump s' u = ump s u \<and> lv s' u = lv s u \<and>
        unext s' u = unext s u"
    "set (wq s) \<subseteq> set (wq s')" "\<forall>x\<in>set (wq s). nextwaitm s' x = nextwaitm s x"
    "(pc s' t = U_READNEXT \<or> pc s' t = U_CAS \<longrightarrow>
        ump s' t = lv s' t AND NOT LOCKED \<and> ump s' t \<in> set (wq s')) \<and>
     (pc s' t = U_CAS \<longrightarrow> unext s' t = nextwaitm s' (ump s' t))"
  shows "inv_unlock s'"
  unfolding inv_unlock_def
proof (intro allI)
  fix u
  show "(pc s' u = U_READNEXT \<or> pc s' u = U_CAS \<longrightarrow>
          ump s' u = lv s' u AND NOT LOCKED \<and> ump s' u \<in> set (wq s')) \<and>
        (pc s' u = U_CAS \<longrightarrow> unext s' u = nextwaitm s' (ump s' u))"
  proof (cases "u = t")
    case True
    show ?thesis unfolding True by (rule assms(5))
  next
    case False
    then have e: "pc s' u = pc s u" "ump s' u = ump s u" "lv s' u = lv s u"
      "unext s' u = unext s u" using assms(2) by auto
    have o: "(pc s u = U_READNEXT \<or> pc s u = U_CAS \<longrightarrow>
          ump s u = lv s u AND NOT LOCKED \<and> ump s u \<in> set (wq s)) \<and>
        (pc s u = U_CAS \<longrightarrow> unext s u = nextwaitm s (ump s u))"
      using assms(1) unfolding inv_unlock_def by blast
    show ?thesis unfolding e
    proof (rule conjI; rule impI)
      assume "pc s u = U_READNEXT \<or> pc s u = U_CAS"
      then show "ump s u = lv s u AND NOT LOCKED \<and> ump s u \<in> set (wq s')"
        using o assms(3) by blast
    next
      assume "pc s u = U_CAS"
      then have "ump s u \<in> set (wq s)" "unext s u = nextwaitm s (ump s u)" using o by blast+
      then show "unext s u = nextwaitm s' (ump s u)" using assms(4) by simp
    qed
  qed
qed

lemma inv_unlock_step:
  assumes "minv s" "validM t" shows "inv_unlock (mstep t s)"
proof (cases "t \<in> set (wq s)")
  case True
  then show ?thesis using queued_stutter[OF assms(1) True] assms(1) by (simp add: minv_def)
next
  case nq: False
  have iq: "inv_queue s" and il: "inv_lock s" and iu: "inv_unlock s" and ib: "inv_bit s"
    using assms(1) by (simp_all add: minv_def)
  show ?thesis
  proof (cases "pc s t")
    case U_LOAD
    have "holding (pc s t)" using U_LOAD by simp
    then have lk: "key s AND LOCKED \<noteq> 0" using ib by (auto simp: inv_bit_def)
    then have knz: "key s \<noteq> 0" by auto
    have "key s \<noteq> LOCKED \<Longrightarrow> key s AND NOT LOCKED \<in> set (wq s)"
    proof -
      assume "key s \<noteq> LOCKED"
      then have "key s AND NOT LOCKED \<noteq> 0" using knz by (rule ptr_bits_nonnull[rotated])
      from chain_nonnil[OF _ this, of "nextwaitm s" "wq s"] iq show ?thesis
        by (auto simp: inv_queue_def)
    qed
    then show ?thesis using U_LOAD
      by (intro inv_unlock_frame[OF iu, of t]) (auto simp: step_simps wq_def)
  next
    case U_READNEXT
    show ?thesis using U_READNEXT iu unfolding readnext_step[OF assms(1) U_READNEXT]
      by (intro inv_unlock_frame[OF iu, of t]) (auto simp: goto_def wq_def inv_unlock_def)
  next
    case U_CAS
    show ?thesis
    proof (cases "key s = lv s t")
      case True
      have "holding (pc s t)" using U_CAS by simp
      then have "\<And>u. u \<noteq> t \<Longrightarrow> \<not> holding (pc s u)" using ib by (auto simp: inv_bit_def)
      then have o: "\<And>u. u \<noteq> t \<Longrightarrow> pc s u \<noteq> U_READNEXT \<and> pc s u \<noteq> U_CAS" by force
      show ?thesis unfolding inv_unlock_def
      proof (intro allI)
        fix u
        show "(pc (mstep t s) u = U_READNEXT \<or> pc (mstep t s) u = U_CAS \<longrightarrow>
           ump (mstep t s) u = lv (mstep t s) u AND NOT LOCKED \<and>
           ump (mstep t s) u \<in> set (wq (mstep t s))) \<and>
          (pc (mstep t s) u = U_CAS \<longrightarrow>
           unext (mstep t s) u = nextwaitm (mstep t s) (ump (mstep t s) u))"
          using o[of u] U_CAS True by (cases "u = t") (auto simp: step_simps)
      qed
    next
      case False
      then show ?thesis using U_CAS
        by (intro inv_unlock_frame[OF iu, of t]) (auto simp: step_simps wq_def)
    qed
  next
    case L_SETNEXT
    then show ?thesis using nq
      by (intro inv_unlock_frame[OF iu, of t]) (auto simp: step_simps wq_def)
  next
    case L_PUSH
    then show ?thesis
      by (intro inv_unlock_frame[OF iu, of t]) (auto simp: step_simps wq_def)
  qed (intro inv_unlock_frame[OF iu, of t]; simp add: step_simps wq_def)+
qed


lemma sum_upd_UNIV: "sum (f(t := f t + k)) (UNIV :: M set) = sum f UNIV + (k::nat)"
proof -
  have a: "sum (f(t := f t + k)) UNIV = (f t + k) + sum (f(t := f t + k)) (UNIV - {t})"
    by (subst sum.remove[of UNIV t]) auto
  have b: "sum f UNIV = f t + sum f (UNIV - {t})"
    by (subst sum.remove[of UNIV t]) auto
  have c: "sum (f(t := f t + k)) (UNIV - {t}) = sum f (UNIV - {t})"
    by (rule sum.cong) auto
  show ?thesis using a b c by simp
qed

lemma sum_upd_UNIV_if:
  "(\<Sum>x\<in>(UNIV :: M set). if x = t then Suc (f t) else f x) = Suc (sum f UNIV)"
  using sum_upd_UNIV[of f t 1] by (simp add: fun_upd_def)

lemma inv_counter_alt: "inv_counter s = (counter s = sum (incs s) UNIV \<and> (\<forall>t. cnt_local s t))"
  by (simp add: inv_counter_def cnt_local_def)

lemma inv_counter_frame:
  assumes "inv_counter s" "counter s' = counter s" "incs s' = incs s" "niter s' = niter s"
    "\<forall>u. u \<noteq> t \<longrightarrow> pc s' u = pc s u \<and> tmp s' u = tmp s u \<and> iter s' u = iter s u"
    "cnt_local s' t"
  shows "inv_counter s'"
  unfolding inv_counter_alt
proof (intro conjI allI)
  show "counter s' = sum (incs s') UNIV" using assms(1,2,3) by (simp add: inv_counter_alt)
next
  fix u
  show "cnt_local s' u"
  proof (cases "u = t")
    case True then show ?thesis using assms(6) by simp
  next
    case False
    have "cnt_local s u" using assms(1) by (simp add: inv_counter_alt)
    then show ?thesis using assms(2,3,4,5) False by (simp add: cnt_local_def)
  qed
qed

lemma inv_counter_step:
  assumes "minv s" "validM t" shows "inv_counter (mstep t s)"
proof -
  have ic: "inv_counter s" and ib: "inv_bit s"
    using assms(1) by (simp_all add: minv_def)
  have lt: "cnt_local s t" using ic by (simp add: inv_counter_alt)
  show ?thesis
  proof (cases "pc s t")
    case W_WRITE
    have "holding (pc s t)" using W_WRITE by simp
    then have "\<And>u. u \<noteq> t \<Longrightarrow> \<not> holding (pc s u)" using ib by (auto simp: inv_bit_def)
    then have o: "\<And>u. u \<noteq> t \<Longrightarrow> pc s u \<noteq> W_WRITE" by force
    have tc: "tmp s t = counter s" using lt W_WRITE by (simp add: cnt_local_def)
    show ?thesis unfolding inv_counter_alt
    proof (intro conjI allI)
      show "counter (mstep t s) = sum (incs (mstep t s)) UNIV"
        using ic W_WRITE tc by (simp add: step_simps inv_counter_alt sum_upd_UNIV_if)
    next
      fix u
      have "cnt_local s u" using ic by (simp add: inv_counter_alt)
      then show "cnt_local (mstep t s) u" using o[of u] W_WRITE
        by (cases "u = t") (auto simp: step_simps cnt_local_def)
    qed
  next
    case U_READNEXT
    show ?thesis using U_READNEXT lt unfolding readnext_step[OF assms(1) U_READNEXT]
      by (intro inv_counter_frame[OF ic, of _ t]) (auto simp: goto_def cnt_local_def)
  next
    case U_DEC
    show ?thesis using U_DEC lt unfolding dec_step[OF assms(1) U_DEC]
      by (intro inv_counter_frame[OF ic, of _ t]) (auto simp: goto_def cnt_local_def)
  next
    case L_ENTER
    show ?thesis using L_ENTER lt unfolding enter_step[OF assms(1) L_ENTER]
      by (intro inv_counter_frame[OF ic, of _ t]) (auto simp: goto_def cnt_local_def)
  qed (use lt in \<open>(intro inv_counter_frame[OF ic, of _ t];
         simp add: step_simps cnt_local_def)+\<close>)
qed

lemma minv_step:
  assumes "minv s" "validM t" shows "minv (mstep t s)"
  unfolding minv_def[of "mstep t s"]
  by (intro conjI inv_pc_step[OF assms] inv_bit_step[OF assms] inv_lock_step[OF assms]
      inv_queue_step[OF assms] inv_wake_step[OF assms] inv_unlock_step[OF assms]
      inv_counter_step[OF assms])

lemma minv_init: "minv (minit c k sp)"
  by (simp add: minv_def inv_pc_def inv_bit_def inv_lock_def inv_queue_def inv_wake_def
      inv_unlock_def inv_counter_def minit_def wq_def)

lemma minv_run: "minv s \<Longrightarrow> \<forall>t\<in>set sched. validM t \<Longrightarrow> minv (mrun sched s)"
  by (induction sched arbitrary: s) (auto simp: mrun_Nil mrun_Cons minv_step)
section \<open>Mutual exclusion, the wait list and the lock count\<close>

lemma inv_race_step: "inv_race s \<Longrightarrow> inv_race (mstep t s)"
  by (cases "pc s t")
    (auto simp: step_simps inv_race_def or_and_LOCKED LOCKED_simps split: if_splits)

lemma inv_race_run: "inv_race s \<Longrightarrow> inv_race (mrun sched s)"
  by (induction sched arbitrary: s) (auto simp: mrun_Nil mrun_Cons inv_race_step)

lemma inv_race_init: "inv_race (minit c k sp)"
  by (simp add: inv_race_def minit_def)

lemma incs_other: "u \<noteq> t \<Longrightarrow> incs (mstep t s) u = incs s u"
  by (cases "pc s t") (auto simp: step_simps split: if_splits)

lemma niter_step: "niter (mstep t s) = niter s"
  by (cases "pc s t") (auto simp: step_simps split: if_splits)

lemma incs_unscheduled: "u \<notin> set sched \<Longrightarrow> incs (mrun sched s) u = incs s u"
  by (induction sched arbitrary: s) (auto simp: mrun_Nil mrun_Cons incs_other)

lemma niter_run: "niter (mrun sched s) = niter s"
  by (induction sched arbitrary: s) (auto simp: mrun_Nil mrun_Cons niter_step)

text \<open>
  C1.  Any number of worker threads, each with a valid M, run
  \<^verbatim>\<open>lock(l); counter = counter + 1; unlock(l)\<close> \<open>k\<close> times, the read and the write
  of the counter being two steps; the scheduler interleaves their atomic steps in any
  order.  In every state that can be reached at most one thread holds the mutex, the
  LOCKED bit is set exactly when some thread holds it, no thread has hit a fatal error,
  and the counter is the number of increments performed so far; when all scheduled
  threads are done the counter is \<open>k\<close> times their number.
\<close>

theorem mutex_exclusion:
  assumes "\<forall>t\<in>set sched. validM t"
  shows "(\<forall>t u. holding (pc (mrun sched (minit c k sp)) t) \<longrightarrow>
            holding (pc (mrun sched (minit c k sp)) u) \<longrightarrow> t = u) \<and>
         ((key (mrun sched (minit c k sp)) AND LOCKED \<noteq> 0) =
            (\<exists>t. holding (pc (mrun sched (minit c k sp)) t))) \<and>
         (\<forall>t. ok_pc (pc (mrun sched (minit c k sp)) t)) \<and>
         counter (mrun sched (minit c k sp)) = (\<Sum>t\<in>set sched. incs (mrun sched (minit c k sp)) t) \<and>
         ((\<forall>t\<in>set sched. pc (mrun sched (minit c k sp)) t = W_DONE) \<longrightarrow>
            counter (mrun sched (minit c k sp)) = k * card (set sched))"
proof -
  define s where "s = mrun sched (minit c k sp)"
  have inv: "minv s" unfolding s_def by (rule minv_run[OF minv_init assms])
  have ib: "inv_bit s" and ip: "inv_pc s" and ic: "inv_counter s"
    using inv by (simp_all add: minv_def)
  have z: "\<And>u. u \<notin> set sched \<Longrightarrow> incs s u = 0"
    unfolding s_def by (simp add: incs_unscheduled minit_def)
  have "sum (incs s) UNIV = sum (incs s) (set sched)"
    by (rule sum.mono_neutral_right) (auto simp: z)
  then have cnt: "counter s = sum (incs s) (set sched)" using ic by (simp add: inv_counter_def)
  have nk: "niter s = k" unfolding s_def by (simp add: niter_run minit_def)
  have fin: "(\<forall>t\<in>set sched. pc s t = W_DONE) \<longrightarrow> counter s = k * card (set sched)"
  proof
    assume d: "\<forall>t\<in>set sched. pc s t = W_DONE"
    have "\<And>t. t \<in> set sched \<Longrightarrow> incs s t = k"
      using ic d nk by (auto simp: inv_counter_def)
    then have "sum (incs s) (set sched) = (\<Sum>t\<in>set sched. k)" by (intro sum.cong) auto
    then show "counter s = k * card (set sched)" using cnt by simp
  qed
  show ?thesis using ib ip cnt fin unfolding s_def[symmetric]
    by (auto simp: inv_bit_def inv_pc_def)
qed


lemma validM_simps: "validM 2" "validM 4" "validM 6" "validM 8"
  by (simp_all add: validM_def LOCKED_def)

lemmas eval_simps = solo_simps minit_def LOCKED_def semacreate_def

theorem mutex_exclusion_witness:
  "validM 2 \<and> validM 4 \<and>
   pc (mrun (replicate 3 2 @ replicate 11 4 @ replicate 9 2 @ replicate 11 4) (minit 1 1 0)) 2
     = W_DONE \<and>
   pc (mrun (replicate 3 2 @ replicate 11 4 @ replicate 9 2 @ replicate 11 4) (minit 1 1 0)) 4
     = W_DONE \<and>
   trace (mrun (replicate 3 2 @ replicate 11 4 @ replicate 9 2 @ replicate 11 4) (minit 1 1 0))
     = [EvRelease 4, EvAcquire 4, EvSemaWakeup 2 4, EvPop 2 4, EvPush 4, EvOsYield 4,
        EvAcquire 2] \<and>
   counter (mrun (replicate 3 2 @ replicate 11 4 @ replicate 9 2 @ replicate 11 4) (minit 1 1 0))
     = 2"
proof -
  define sched :: "M list" where
    "sched = replicate 3 2 @ replicate 11 4 @ replicate 9 2 @ replicate 11 4"
  have v: "\<forall>t\<in>set sched. validM t" by (auto simp: sched_def validM_simps)
  have d: "pc (mrun sched (minit 1 1 0)) 2 = W_DONE" "pc (mrun sched (minit 1 1 0)) 4 = W_DONE"
    "trace (mrun sched (minit 1 1 0))
     = [EvRelease 4, EvAcquire 4, EvSemaWakeup 2 4, EvPop 2 4, EvPush 4, EvOsYield 4,
        EvAcquire 2]"
    unfolding sched_def by (simp_all add: eval_simps)
  have s: "set sched = {2, 4}" by (auto simp: sched_def)
  have "counter (mrun sched (minit 1 1 0)) = 1 * card (set sched)"
    using mutex_exclusion[OF v, of 1 1 0] d s by simp
  then have "counter (mrun sched (minit 1 1 0)) = 2" by (simp add: s)
  then show ?thesis using d validM_simps unfolding sched_def by simp
qed

text \<open>
  C4.  In every state reachable from the zero-valued mutex by steps of workers that
  lock and unlock: if the LOCKED bit is 0 then the pointer bits are nil, or else the
  history holds a pop by an unlock with no successful acquisition after it (a release
  race is being resolved); and no thread holds the mutex then.
\<close>

theorem unlocked_key_null_or_release_race:
  assumes "\<forall>t\<in>set sched. validM t"
  shows "key (mrun sched (minit c k sp)) AND LOCKED = 0 \<longrightarrow>
           (key (mrun sched (minit c k sp)) AND NOT LOCKED = 0 \<or>
            release_race (trace (mrun sched (minit c k sp)))) \<and>
           (\<forall>t. \<not> holding (pc (mrun sched (minit c k sp)) t))"
proof -
  define s where "s = mrun sched (minit c k sp)"
  have inv: "minv s" unfolding s_def by (rule minv_run[OF minv_init assms])
  have r: "inv_race s" unfolding s_def by (rule inv_race_run[OF inv_race_init])
  show ?thesis using inv r unfolding s_def[symmetric]
    by (auto simp: minv_def inv_bit_def inv_race_def LOCKED_simps)
qed

theorem unlocked_key_null_or_release_race_witness:
  "validM 2 \<and> validM 4 \<and> validM 6 \<and>
   key (mrun (replicate 3 2 @ replicate 11 4 @ replicate 11 6 @ replicate 5 2) (minit 1 1 0))
     AND LOCKED = 0 \<and>
   key (mrun (replicate 3 2 @ replicate 11 4 @ replicate 11 6 @ replicate 5 2) (minit 1 1 0))
     AND NOT LOCKED = 4 \<and>
   release_race
     (trace (mrun (replicate 3 2 @ replicate 11 4 @ replicate 11 6 @ replicate 5 2) (minit 1 1 0)))"
proof -
  define sched :: "M list" where
    "sched = replicate 3 2 @ replicate 11 4 @ replicate 11 6 @ replicate 5 2"
  have v: "\<forall>t\<in>set sched. validM t" by (auto simp: sched_def validM_simps)
  have k: "key (mrun sched (minit 1 1 0)) = 4"
    unfolding sched_def by (simp add: eval_simps)
  have "release_race (trace (mrun sched (minit 1 1 0)))"
    using unlocked_key_null_or_release_race[OF v, of 1 1 0] unfolding k
    by (simp add: LOCKED_def)
  then show ?thesis using validM_simps unfolding sched_def[symmetric] k
    by (simp add: LOCKED_def)
qed


lemma acq_step_keeps_list:
  "pc x t = L_ACQ \<Longrightarrow> key x = lv x t \<Longrightarrow>
     key (mstep t x) = key x OR LOCKED \<and>
     key (mstep t x) AND NOT LOCKED = key x AND NOT LOCKED \<and>
     nextwaitm (mstep t x) = nextwaitm x \<and> wq (mstep t x) = wq x"
  by (simp add: step_simps or_and_not_LOCKED wq_def)

text \<open>
  C10.  In every reachable state of the workers the Ms pushed and not yet popped are
  exactly the list that starts at the pointer bits of the key and follows
  \<open>nextwaitm\<close>, without repetition; each of them is parked with semaphore count 0; and
  every parked thread is on that list, or has been popped and has its wakeup granted
  (count positive) or about to be granted (a thread stands before
  \<^verbatim>\<open>semawakeup\<close> of it).  An acquisition by compare-and-swap from \<open>v\<close> to
  \<open>v|LOCKED\<close> leaves the pointer bits, the links and so the list as they are; a pop
  replaces the key by the \<open>nextwaitm\<close> of the head it removes.
\<close>

theorem no_waiter_lost:
  assumes "\<forall>t\<in>set sched. validM t"
  shows "is_chain (nextwaitm (mrun sched (minit c k sp)))
           (key (mrun sched (minit c k sp)) AND NOT LOCKED) (wq (mrun sched (minit c k sp))) \<and>
         distinct (wq (mrun sched (minit c k sp))) \<and>
         (\<forall>t\<in>set (wq (mrun sched (minit c k sp))).
            pc (mrun sched (minit c k sp)) t = L_SLEEP \<and> sema (mrun sched (minit c k sp)) t = 0) \<and>
         (\<forall>t. pc (mrun sched (minit c k sp)) t = L_SLEEP \<longrightarrow>
            t \<in> set (wq (mrun sched (minit c k sp))) \<or>
            0 < sema (mrun sched (minit c k sp)) t \<or>
            (\<exists>u. pc (mrun sched (minit c k sp)) u = U_WAKE \<and>
                 ump (mrun sched (minit c k sp)) u = t)) \<and>
         (\<forall>t. pc (mrun sched (minit c k sp)) t = L_ACQ \<and>
              key (mrun sched (minit c k sp)) = lv (mrun sched (minit c k sp)) t \<longrightarrow>
            key (mstep t (mrun sched (minit c k sp))) =
              key (mrun sched (minit c k sp)) OR LOCKED \<and>
            key (mstep t (mrun sched (minit c k sp))) AND NOT LOCKED =
              key (mrun sched (minit c k sp)) AND NOT LOCKED \<and>
            nextwaitm (mstep t (mrun sched (minit c k sp))) =
              nextwaitm (mrun sched (minit c k sp)) \<and>
            wq (mstep t (mrun sched (minit c k sp))) = wq (mrun sched (minit c k sp))) \<and>
         (\<forall>u. pc (mrun sched (minit c k sp)) u = U_CAS \<and>
              key (mrun sched (minit c k sp)) = lv (mrun sched (minit c k sp)) u \<longrightarrow>
            key (mstep u (mrun sched (minit c k sp))) =
              nextwaitm (mrun sched (minit c k sp)) (ump (mrun sched (minit c k sp)) u) \<and>
            wq (mrun sched (minit c k sp)) =
              ump (mrun sched (minit c k sp)) u # wq (mstep u (mrun sched (minit c k sp))) \<and>
            pc (mstep u (mrun sched (minit c k sp))) u = U_WAKE \<and>
            ump (mstep u (mrun sched (minit c k sp))) u = ump (mrun sched (minit c k sp)) u)"
proof -
  define s where "s = mrun sched (minit c k sp)"
  have inv: "minv s" unfolding s_def by (rule minv_run[OF minv_init assms])
  have iq: "inv_queue s" and iw: "inv_wake s" and iu: "inv_unlock s"
    using inv by (simp_all add: minv_def)
  have a: "is_chain (nextwaitm s) (key s AND NOT LOCKED) (wq s)" "distinct (wq s)"
    "\<forall>t\<in>set (wq s). pc s t = L_SLEEP \<and> sema s t = 0"
    using iq by (auto simp: inv_queue_def)
  have b: "\<forall>t. pc s t = L_SLEEP \<longrightarrow>
            t \<in> set (wq s) \<or> 0 < sema s t \<or> (\<exists>u. pc s u = U_WAKE \<and> ump s u = t)"
    using iw by (simp add: inv_wake_def)
  have c: "\<forall>t. pc s t = L_ACQ \<and> key s = lv s t \<longrightarrow>
            key (mstep t s) = key s OR LOCKED \<and>
            key (mstep t s) AND NOT LOCKED = key s AND NOT LOCKED \<and>
            nextwaitm (mstep t s) = nextwaitm s \<and> wq (mstep t s) = wq s"
    using acq_step_keeps_list by blast
  have d: "\<forall>u. pc s u = U_CAS \<and> key s = lv s u \<longrightarrow>
            key (mstep u s) = nextwaitm s (ump s u) \<and>
            wq s = ump s u # wq (mstep u s) \<and>
            pc (mstep u s) u = U_WAKE \<and> ump (mstep u s) u = ump s u"
  proof (intro allI impI)
    fix u assume h: "pc s u = U_CAS \<and> key s = lv s u"
    from pop_shape[OF inv] h obtain ys where ys: "wq s = ump s u # ys" by blast
    have "unext s u = nextwaitm s (ump s u)" using iu h by (simp add: inv_unlock_def)
    then show "key (mstep u s) = nextwaitm s (ump s u) \<and>
            wq s = ump s u # wq (mstep u s) \<and>
            pc (mstep u s) u = U_WAKE \<and> ump (mstep u s) u = ump s u"
      using h ys by (auto simp: step_simps wq_def)
  qed
  show ?thesis using a b c d unfolding s_def[symmetric] by blast
qed

theorem no_waiter_lost_witness:
  "validM 2 \<and> validM 4 \<and> validM 6 \<and>
   wq (mrun (replicate 3 2 @ replicate 11 4 @ replicate 11 6) (minit 1 1 0)) = [6, 4] \<and>
   key (mrun (replicate 3 2 @ replicate 11 4 @ replicate 11 6) (minit 1 1 0)) = 7 \<and>
   is_chain (nextwaitm (mrun (replicate 3 2 @ replicate 11 4 @ replicate 11 6) (minit 1 1 0)))
     6 [6, 4] \<and>
   pc (mrun (replicate 3 2 @ replicate 11 4 @ replicate 11 6) (minit 1 1 0)) 4 = L_SLEEP \<and>
   pc (mrun (replicate 3 2 @ replicate 11 4 @ replicate 11 6) (minit 1 1 0)) 6 = L_SLEEP"
proof -
  define sched :: "M list" where
    "sched = replicate 3 2 @ replicate 11 4 @ replicate 11 6"
  have v: "\<forall>t\<in>set sched. validM t" by (auto simp: sched_def validM_simps)
  have k: "key (mrun sched (minit 1 1 0)) = 7" "wq (mrun sched (minit 1 1 0)) = [6, 4]"
    unfolding sched_def by (simp_all add: eval_simps wq_def)
  have e: "(7::uintptr) AND NOT LOCKED = 6" by (simp add: LOCKED_def)
  from no_waiter_lost[OF v, of 1 1 0]
  have "is_chain (nextwaitm (mrun sched (minit 1 1 0))) 6 [6, 4] \<and>
    (\<forall>t\<in>set [6, 4]. pc (mrun sched (minit 1 1 0)) t = L_SLEEP \<and>
        sema (mrun sched (minit 1 1 0)) t = 0)"
    unfolding k e by blast
  then show ?thesis using validM_simps k unfolding sched_def[symmetric] by simp
qed


lemma lifo_scenario:
  "wq (mrun lifo_enqueue (minit 1 1 0)) = [8, 6, 4]"
  "pc (mrun lifo_enqueue (minit 1 1 0)) 2 = L_RET"
  "wakeups (trace (mrun (lifo_enqueue @ lifo_release) (minit 1 1 0))) = [8, 6, 4]"
  by (simp_all add: lifo_enqueue_def lifo_release_def eval_simps wq_def)

text \<open>
  C5.  In every reachable state of the workers: a successful push by \<open>t\<close> has set
  \<open>t\<close>'s \<open>nextwaitm\<close> to the previous head and makes \<open>t\<close> the head of the list; a
  successful pop by \<open>u\<close> removes the head, and \<open>u\<close>'s next step is
  \<^verbatim>\<open>semawakeup\<close> of that head; the pointer bits of the key are the head of the
  list.  In the schedule where thread 2 holds the mutex and threads 4, 6, 8 block in
  this order, the list is 8, 6, 4 and the three following unlocks (by 2, by 8, by 6)
  wake 8, then 6, then 4.
\<close>

theorem wait_queue_lifo:
  assumes "\<forall>t\<in>set sched. validM t"
  shows "(\<forall>t. pc (mrun sched (minit c k sp)) t = L_PUSH \<and>
              key (mrun sched (minit c k sp)) = lv (mrun sched (minit c k sp)) t \<longrightarrow>
            nextwaitm (mrun sched (minit c k sp)) t =
              key (mrun sched (minit c k sp)) AND NOT LOCKED \<and>
            key (mstep t (mrun sched (minit c k sp))) = t OR LOCKED \<and>
            wq (mstep t (mrun sched (minit c k sp))) = t # wq (mrun sched (minit c k sp)) \<and>
            pc (mstep t (mrun sched (minit c k sp))) t = L_SLEEP) \<and>
         (\<forall>u. pc (mrun sched (minit c k sp)) u = U_CAS \<and>
              key (mrun sched (minit c k sp)) = lv (mrun sched (minit c k sp)) u \<longrightarrow>
            wq (mrun sched (minit c k sp)) \<noteq> [] \<and>
            wq (mrun [u, u] (mrun sched (minit c k sp))) = tl (wq (mrun sched (minit c k sp))) \<and>
            trace (mrun [u, u] (mrun sched (minit c k sp))) =
              EvSemaWakeup u (hd (wq (mrun sched (minit c k sp)))) #
              EvPop u (hd (wq (mrun sched (minit c k sp)))) # trace (mrun sched (minit c k sp)) \<and>
            sema (mrun [u, u] (mrun sched (minit c k sp))) (hd (wq (mrun sched (minit c k sp)))) =
              sema (mrun sched (minit c k sp)) (hd (wq (mrun sched (minit c k sp)))) + 1) \<and>
         key (mrun sched (minit c k sp)) AND NOT LOCKED =
           (if wq (mrun sched (minit c k sp)) = [] then 0 else hd (wq (mrun sched (minit c k sp)))) \<and>
         wq (mrun lifo_enqueue (minit 1 1 0)) = [8, 6, 4] \<and>
         wakeups (trace (mrun (lifo_enqueue @ lifo_release) (minit 1 1 0))) = [8, 6, 4]"
proof -
  define s where "s = mrun sched (minit c k sp)"
  have inv: "minv s" unfolding s_def by (rule minv_run[OF minv_init assms])
  have iq: "inv_queue s" and il: "inv_lock s" and iu: "inv_unlock s"
    using inv by (simp_all add: minv_def)
  have a: "\<forall>t. pc s t = L_PUSH \<and> key s = lv s t \<longrightarrow>
            nextwaitm s t = key s AND NOT LOCKED \<and> key (mstep t s) = t OR LOCKED \<and>
            wq (mstep t s) = t # wq s \<and> pc (mstep t s) t = L_SLEEP"
    using il by (auto simp: inv_lock_def step_simps wq_def)
  have b: "\<forall>u. pc s u = U_CAS \<and> key s = lv s u \<longrightarrow>
            wq s \<noteq> [] \<and> wq (mrun [u, u] s) = tl (wq s) \<and>
            trace (mrun [u, u] s) = EvSemaWakeup u (hd (wq s)) # EvPop u (hd (wq s)) # trace s \<and>
            sema (mrun [u, u] s) (hd (wq s)) = sema s (hd (wq s)) + 1"
  proof (intro allI impI)
    fix u assume h: "pc s u = U_CAS \<and> key s = lv s u"
    from pop_shape[OF inv] h obtain ys where ys: "wq s = ump s u # ys" by blast
    have t: "trace (mrun [u, u] s) = EvSemaWakeup u (ump s u) # EvPop u (ump s u) # trace s"
      "sema (mrun [u, u] s) (ump s u) = sema s (ump s u) + 1"
      using h by (simp_all add: solo_simps)
    then have "wq (mrun [u, u] s) = tl (wq s)" by (simp add: wq_def)
    then show "wq s \<noteq> [] \<and> wq (mrun [u, u] s) = tl (wq s) \<and>
            trace (mrun [u, u] s) = EvSemaWakeup u (hd (wq s)) # EvPop u (hd (wq s)) # trace s \<and>
            sema (mrun [u, u] s) (hd (wq s)) = sema s (hd (wq s)) + 1"
      using t ys by simp
  qed
  have ch: "is_chain (nextwaitm s) (key s AND NOT LOCKED) (wq s)"
    using iq by (simp add: inv_queue_def)
  have c: "key s AND NOT LOCKED = (if wq s = [] then 0 else hd (wq s))"
    using ch by (cases "wq s") auto
  show ?thesis using a b c lifo_scenario(1,3) unfolding s_def[symmetric] by blast
qed

theorem wait_queue_lifo_witness:
  "validM 2 \<and> validM 4 \<and> validM 6 \<and> validM 8 \<and>
   pc (mrun (lifo_enqueue @ replicate 4 2) (minit 1 1 0)) 2 = U_CAS \<and>
   key (mrun (lifo_enqueue @ replicate 4 2) (minit 1 1 0)) =
     lv (mrun (lifo_enqueue @ replicate 4 2) (minit 1 1 0)) 2 \<and>
   wq (mrun (lifo_enqueue @ replicate 4 2) (minit 1 1 0)) = [8, 6, 4] \<and>
   wq (mrun [2, 2] (mrun (lifo_enqueue @ replicate 4 2) (minit 1 1 0))) = [6, 4] \<and>
   trace (mrun [2, 2] (mrun (lifo_enqueue @ replicate 4 2) (minit 1 1 0))) =
     EvSemaWakeup 2 8 # EvPop 2 8 # trace (mrun (lifo_enqueue @ replicate 4 2) (minit 1 1 0))"
proof -
  define sched :: "M list" where "sched = lifo_enqueue @ replicate 4 2"
  have v: "\<forall>t\<in>set sched. validM t" by (auto simp: sched_def lifo_enqueue_def validM_simps)
  have h: "pc (mrun sched (minit 1 1 0)) 2 = U_CAS"
    "key (mrun sched (minit 1 1 0)) = lv (mrun sched (minit 1 1 0)) 2"
    "wq (mrun sched (minit 1 1 0)) = [8, 6, 4]"
    unfolding sched_def lifo_enqueue_def by (simp_all add: eval_simps wq_def)
  from wait_queue_lifo[OF v, of 1 1 0] h
  have "wq (mrun [2, 2] (mrun sched (minit 1 1 0))) = tl [8, 6, 4] \<and>
     trace (mrun [2, 2] (mrun sched (minit 1 1 0))) =
       EvSemaWakeup 2 (hd [8, 6, 4]) # EvPop 2 (hd [8, 6, 4]) # trace (mrun sched (minit 1 1 0))"
    by metis
  then show ?thesis using h validM_simps unfolding sched_def[symmetric] by simp
qed


lemma unlock_solo_nowaiter:
  assumes "pc s t = U_LOAD" "key s = LOCKED"
  shows "mrun (replicate 3 t) s =
     (let n = locks s t - 1;
          s1 = s\<lparr>key := 0, lv := (lv s)(t := LOCKED), locks := (locks s)(t := n),
                 trace := EvRelease t # trace s\<rparr>
      in if sint n < 0 then goto t (THROWN unlock_count_msg) s1
         else goto t U_RET
           (if n = 0 \<and> preempt s t
            then s1\<lparr>stackguard0 := (stackguard0 s)(t := StackPreempt s)\<rparr> else s1))"
  using assms by (simp add: solo_simps)

lemma unlock_solo_waiter:
  assumes "pc s t = U_LOAD" "key s \<noteq> LOCKED" "key s \<noteq> 0"
  shows "mrun (replicate 5 t) s =
     (let n = locks s t - 1; mp = key s AND NOT LOCKED;
          s1 = s\<lparr>key := nextwaitm s mp, lv := (lv s)(t := key s), ump := (ump s)(t := mp),
                 unext := (unext s)(t := nextwaitm s mp),
                 sema := (sema s)(mp := sema s mp + 1),
                 locks := (locks s)(t := n),
                 trace := EvSemaWakeup t mp # EvPop t mp # trace s\<rparr>
      in if sint n < 0 then goto t (THROWN unlock_count_msg) s1
         else goto t U_RET
           (if n = 0 \<and> preempt s t
            then s1\<lparr>stackguard0 := (stackguard0 s)(t := StackPreempt s)\<rparr> else s1))"
proof -
  have "key s AND NOT LOCKED \<noteq> 0" using assms(2,3) by (simp add: ptr_bits_nonnull)
  then show ?thesis using assms by (simp add: solo_simps)
qed

lemma dec_step_any:
  "pc x u = U_DEC \<Longrightarrow>
     locks (mstep u x) u = locks x u - 1 \<and>
     (sint (locks x u - 1) < 0 \<longrightarrow>
        pc (mstep u x) u = THROWN unlock_count_msg \<and>
        stackguard0 (mstep u x) u = stackguard0 x u) \<and>
     (\<not> sint (locks x u - 1) < 0 \<longrightarrow>
        pc (mstep u x) u = U_RET \<and>
        stackguard0 (mstep u x) u =
          (if locks x u - 1 = 0 \<and> preempt x u then StackPreempt x else stackguard0 x u))"
  by (simp add: step_simps)

lemma locks_other: "u \<noteq> t \<Longrightarrow> locks (mstep t s) u = locks s u"
  by (cases "pc s t") (auto simp: step_simps split: if_splits)

lemma cnt_own:
  "ok_pc (pc (mstep t s) t) \<Longrightarrow>
     ok_pc (pc s t) \<and>
     locks (mstep t s) t - lockcnt (pc (mstep t s) t) = locks s t - lockcnt (pc s t)"
  by (cases "pc s t") (auto simp: step_simps split: if_splits)

lemma cnt_step:
  "ok_pc (pc (mstep u s) t) \<Longrightarrow>
     ok_pc (pc s t) \<and>
     locks (mstep u s) t - lockcnt (pc (mstep u s) t) = locks s t - lockcnt (pc s t)"
  by (cases "u = t") (simp_all add: cnt_own pc_other locks_other)

lemma cnt_run:
  "ok_pc (pc (mrun sched s) t) \<Longrightarrow>
     locks (mrun sched s) t - lockcnt (pc (mrun sched s) t) = locks s t - lockcnt (pc s t)"
proof (induction sched rule: rev_induct)
  case Nil
  show ?case by (simp add: mrun_Nil)
next
  case (snoc u sched)
  from snoc.prems have a: "ok_pc (pc (mstep u (mrun sched s)) t)" by (simp add: mrun_snoc)
  from cnt_step[OF a] snoc.IH show ?case by (simp add: mrun_snoc)
qed

lemma count_at_dec:
  assumes "pc s t = U_LOAD" and "pc (mrun sched s) t = U_DEC"
  shows "locks (mrun sched s) t = locks s t"
  using cnt_run[of sched s t] assms by simp

lemma pend_own:
  assumes "unlock_pending (pc s t) \<and> locks s t = 0 \<or> unlock_fatal (pc s t)"
  shows "unlock_pending (pc (mstep t s) t) \<and> locks (mstep t s) t = 0 \<or>
         unlock_fatal (pc (mstep t s) t)"
  using assms by (cases "pc s t") (auto simp: step_simps split: if_splits)

lemma pend_step:
  assumes "unlock_pending (pc s t) \<and> locks s t = 0 \<or> unlock_fatal (pc s t)"
  shows "unlock_pending (pc (mstep u s) t) \<and> locks (mstep u s) t = 0 \<or>
         unlock_fatal (pc (mstep u s) t)"
proof (cases "u = t")
  case True
  then show ?thesis using pend_own[OF assms] by simp
next
  case False
  then show ?thesis using assms by (simp add: pc_other locks_other)
qed

lemma pend_run:
  assumes "unlock_pending (pc s t) \<and> locks s t = 0 \<or> unlock_fatal (pc s t)"
  shows "unlock_pending (pc (mrun sched s) t) \<and> locks (mrun sched s) t = 0 \<or>
         unlock_fatal (pc (mrun sched s) t)"
proof (induction sched rule: rev_induct)
  case Nil
  show ?case using assms by (simp add: mrun_Nil)
next
  case (snoc u sched)
  show ?case using pend_step[OF snoc.IH] by (simp add: mrun_snoc)
qed

lemma load_zero_faults:
  assumes "pc x u = U_LOAD"
  shows "(pc (mrun [u, u] x) u = FAULT) = (key x = 0)"
proof (cases "key x = LOCKED")
  case True
  then show ?thesis using assms by (simp add: solo_simps LOCKED_def)
next
  case False
  show ?thesis
  proof (cases "key x = 0")
    case True
    then show ?thesis using assms False by (simp add: solo_simps LOCKED_def)
  next
    case nz: False
    have "key x AND NOT LOCKED \<noteq> 0" using nz False by (simp add: ptr_bits_nonnull)
    then show ?thesis using assms False nz by (simp add: solo_simps)
  qed
qed


text \<open>
  C8, as amended.  A thread \<open>t\<close> has entered \<^verbatim>\<open>runtime.unlock\<close> with lock count
  \<open>locks s t\<close>; the other threads move as they like.  Whenever \<open>t\<close> stands at line
  115, past the release loop, its count is still the one it entered with, so its next step
  makes it one less; if that is negative the thread throws
  \<^verbatim>\<open>runtime\<close>\<open>\<cdot>\<close>\<^verbatim>\<open>unlock: lock count\<close> and \<open>stackguard0\<close> is untouched, otherwise
  it returns with \<open>stackguard0\<close> set to \<open>StackPreempt\<close> exactly if the new count is 0
  and \<open>preempt\<close> is set.  A call entered with count 0 never returns, under any schedule:
  it is still in the loop or at line 115 with count 0, or it has thrown that message, or it
  has stopped at line 107 reading \<open>mp->nextwaitm\<close> through \<open>mp = nil\<close>.  A pass of the
  loop stops there exactly if the state word it loads is 0.  If the state word is not 0
  and nobody else moves, the call is past line 115 after 3 steps (the word was LOCKED, no
  waiter) or 5 steps (a waiter was popped and woken), with the same outcome; so it has
  thrown when the count was 0.
\<close>

theorem unlock_lock_count:
  assumes "pc s t = U_LOAD"
  shows "(\<forall>sched. pc (mrun sched s) t = U_DEC \<longrightarrow>
            locks (mstep t (mrun sched s)) t = locks s t - 1 \<and>
            (sint (locks s t - 1) < 0 \<longrightarrow>
               pc (mstep t (mrun sched s)) t = THROWN unlock_count_msg \<and>
               stackguard0 (mstep t (mrun sched s)) t = stackguard0 (mrun sched s) t) \<and>
            (\<not> sint (locks s t - 1) < 0 \<longrightarrow>
               pc (mstep t (mrun sched s)) t = U_RET \<and>
               stackguard0 (mstep t (mrun sched s)) t =
                 (if locks s t - 1 = 0 \<and> preempt (mrun sched s) t then StackPreempt (mrun sched s)
                  else stackguard0 (mrun sched s) t))) \<and>
         (locks s t = 0 \<longrightarrow>
            (\<forall>sched. unlock_pending (pc (mrun sched s) t) \<and> locks (mrun sched s) t = 0 \<or>
               unlock_fatal (pc (mrun sched s) t))) \<and>
         (\<forall>x u. pc x u = U_LOAD \<longrightarrow> (pc (mrun [u, u] x) u = FAULT) = (key x = 0)) \<and>
         (key s \<noteq> 0 \<longrightarrow>
            locks (mrun (replicate (if key s = LOCKED then 3 else 5) t) s) t = locks s t - 1 \<and>
            (sint (locks s t - 1) < 0 \<longrightarrow>
               pc (mrun (replicate (if key s = LOCKED then 3 else 5) t) s) t =
                 THROWN unlock_count_msg \<and>
               stackguard0 (mrun (replicate (if key s = LOCKED then 3 else 5) t) s) t =
                 stackguard0 s t) \<and>
            (\<not> sint (locks s t - 1) < 0 \<longrightarrow>
               pc (mrun (replicate (if key s = LOCKED then 3 else 5) t) s) t = U_RET \<and>
               stackguard0 (mrun (replicate (if key s = LOCKED then 3 else 5) t) s) t =
                 (if locks s t - 1 = 0 \<and> preempt s t then StackPreempt s else stackguard0 s t)) \<and>
            (locks s t = 0 \<longrightarrow>
               pc (mrun (replicate (if key s = LOCKED then 3 else 5) t) s) t =
                 THROWN unlock_count_msg)) \<and>
         (\<forall>x u. pc x u = U_DEC \<longrightarrow>
            locks (mstep u x) u = locks x u - 1 \<and>
            (sint (locks x u - 1) < 0 \<longrightarrow>
               pc (mstep u x) u = THROWN unlock_count_msg \<and>
               stackguard0 (mstep u x) u = stackguard0 x u) \<and>
            (\<not> sint (locks x u - 1) < 0 \<longrightarrow>
               pc (mstep u x) u = U_RET \<and>
               stackguard0 (mstep u x) u =
                 (if locks x u - 1 = 0 \<and> preempt x u then StackPreempt x else stackguard0 x u)))"
proof -
  have cB: "(\<forall>sched. pc (mrun sched s) t = U_DEC \<longrightarrow>
            locks (mstep t (mrun sched s)) t = locks s t - 1 \<and>
            (sint (locks s t - 1) < 0 \<longrightarrow>
               pc (mstep t (mrun sched s)) t = THROWN unlock_count_msg \<and>
               stackguard0 (mstep t (mrun sched s)) t = stackguard0 (mrun sched s) t) \<and>
            (\<not> sint (locks s t - 1) < 0 \<longrightarrow>
               pc (mstep t (mrun sched s)) t = U_RET \<and>
               stackguard0 (mstep t (mrun sched s)) t =
                 (if locks s t - 1 = 0 \<and> preempt (mrun sched s) t then StackPreempt (mrun sched s)
                  else stackguard0 (mrun sched s) t)))"
  proof (intro allI impI)
    fix sched
    assume d: "pc (mrun sched s) t = U_DEC"
    have l: "locks (mrun sched s) t = locks s t" by (rule count_at_dec[OF assms d])
    show "locks (mstep t (mrun sched s)) t = locks s t - 1 \<and>
            (sint (locks s t - 1) < 0 \<longrightarrow>
               pc (mstep t (mrun sched s)) t = THROWN unlock_count_msg \<and>
               stackguard0 (mstep t (mrun sched s)) t = stackguard0 (mrun sched s) t) \<and>
            (\<not> sint (locks s t - 1) < 0 \<longrightarrow>
               pc (mstep t (mrun sched s)) t = U_RET \<and>
               stackguard0 (mstep t (mrun sched s)) t =
                 (if locks s t - 1 = 0 \<and> preempt (mrun sched s) t then StackPreempt (mrun sched s)
                  else stackguard0 (mrun sched s) t))"
      using dec_step_any[OF d] unfolding l by blast
  qed
  have cC: "(locks s t = 0 \<longrightarrow>
            (\<forall>sched. unlock_pending (pc (mrun sched s) t) \<and> locks (mrun sched s) t = 0 \<or>
               unlock_fatal (pc (mrun sched s) t)))"
  proof (intro allI impI)
    fix sched
    assume z: "locks s t = 0"
    have "unlock_pending (pc s t) \<and> locks s t = 0 \<or> unlock_fatal (pc s t)"
      using assms z by simp
    then show "unlock_pending (pc (mrun sched s) t) \<and> locks (mrun sched s) t = 0 \<or>
               unlock_fatal (pc (mrun sched s) t)"
      by (rule pend_run)
  qed
  have cE: "(\<forall>x u. pc x u = U_LOAD \<longrightarrow> (pc (mrun [u, u] x) u = FAULT) = (key x = 0))"
    using load_zero_faults by blast
  have cA: "(key s \<noteq> 0 \<longrightarrow>
            locks (mrun (replicate (if key s = LOCKED then 3 else 5) t) s) t = locks s t - 1 \<and>
            (sint (locks s t - 1) < 0 \<longrightarrow>
               pc (mrun (replicate (if key s = LOCKED then 3 else 5) t) s) t =
                 THROWN unlock_count_msg \<and>
               stackguard0 (mrun (replicate (if key s = LOCKED then 3 else 5) t) s) t =
                 stackguard0 s t) \<and>
            (\<not> sint (locks s t - 1) < 0 \<longrightarrow>
               pc (mrun (replicate (if key s = LOCKED then 3 else 5) t) s) t = U_RET \<and>
               stackguard0 (mrun (replicate (if key s = LOCKED then 3 else 5) t) s) t =
                 (if locks s t - 1 = 0 \<and> preempt s t then StackPreempt s else stackguard0 s t)) \<and>
            (locks s t = 0 \<longrightarrow>
               pc (mrun (replicate (if key s = LOCKED then 3 else 5) t) s) t =
                 THROWN unlock_count_msg))"
  proof
    assume nz: "key s \<noteq> 0"
    show "locks (mrun (replicate (if key s = LOCKED then 3 else 5) t) s) t = locks s t - 1 \<and>
            (sint (locks s t - 1) < 0 \<longrightarrow>
               pc (mrun (replicate (if key s = LOCKED then 3 else 5) t) s) t =
                 THROWN unlock_count_msg \<and>
               stackguard0 (mrun (replicate (if key s = LOCKED then 3 else 5) t) s) t =
                 stackguard0 s t) \<and>
            (\<not> sint (locks s t - 1) < 0 \<longrightarrow>
               pc (mrun (replicate (if key s = LOCKED then 3 else 5) t) s) t = U_RET \<and>
               stackguard0 (mrun (replicate (if key s = LOCKED then 3 else 5) t) s) t =
                 (if locks s t - 1 = 0 \<and> preempt s t then StackPreempt s else stackguard0 s t)) \<and>
            (locks s t = 0 \<longrightarrow>
               pc (mrun (replicate (if key s = LOCKED then 3 else 5) t) s) t =
                 THROWN unlock_count_msg)"
    proof (cases "key s = LOCKED")
      case True
      show ?thesis unfolding if_P[OF True] unlock_solo_nowaiter[OF assms True]
        by (auto simp: Let_def goto_def)
    next
      case False
      show ?thesis unfolding if_not_P[OF False] unlock_solo_waiter[OF assms False nz]
        by (auto simp: Let_def goto_def)
    qed
  qed
  have cD: "(\<forall>x u. pc x u = U_DEC \<longrightarrow>
            locks (mstep u x) u = locks x u - 1 \<and>
            (sint (locks x u - 1) < 0 \<longrightarrow>
               pc (mstep u x) u = THROWN unlock_count_msg \<and>
               stackguard0 (mstep u x) u = stackguard0 x u) \<and>
            (\<not> sint (locks x u - 1) < 0 \<longrightarrow>
               pc (mstep u x) u = U_RET \<and>
               stackguard0 (mstep u x) u =
                 (if locks x u - 1 = 0 \<and> preempt x u then StackPreempt x else stackguard0 x u)))"
    using dec_step_any by blast
  show ?thesis by (intro conjI cB cC cE cA cD)
qed

theorem unlock_lock_count_witness:
  "pc ((mrun [4, 4, 4] (minit 1 1 0))\<lparr>pc := (\<lambda>_. W_IDLE)(4 := L_RET, 2 := U_LOAD)\<rparr>) 2 = U_LOAD \<and>
   key ((mrun [4, 4, 4] (minit 1 1 0))\<lparr>pc := (\<lambda>_. W_IDLE)(4 := L_RET, 2 := U_LOAD)\<rparr>) = LOCKED \<and>
   locks ((mrun [4, 4, 4] (minit 1 1 0))\<lparr>pc := (\<lambda>_. W_IDLE)(4 := L_RET, 2 := U_LOAD)\<rparr>) 2 = 0 \<and>
   pc (mrun (replicate 3 2)
        ((mrun [4, 4, 4] (minit 1 1 0))\<lparr>pc := (\<lambda>_. W_IDLE)(4 := L_RET, 2 := U_LOAD)\<rparr>)) 2
     = THROWN unlock_count_msg \<and>
   pc (mrun [2, 4, 4, 2]
        ((mrun [4, 4, 4] (minit 1 1 0))\<lparr>pc := (\<lambda>_. W_IDLE)(4 := L_RET, 2 := U_LOAD)\<rparr>)) 2
     = U_DEC \<and>
   pc (mstep 2 (mrun [2, 4, 4, 2]
        ((mrun [4, 4, 4] (minit 1 1 0))\<lparr>pc := (\<lambda>_. W_IDLE)(4 := L_RET, 2 := U_LOAD)\<rparr>))) 2
     = THROWN unlock_count_msg \<and>
   pc (mrun [2, 4, 4, 4, 4, 2, 2, 2]
        ((mrun [4, 4, 4] (minit 1 1 0))\<lparr>pc := (\<lambda>_. W_IDLE)(4 := L_RET, 2 := U_LOAD)\<rparr>)) 2
     = FAULT \<and>
   unlock_fatal (pc (mrun [2, 4, 4, 4, 4, 2, 2, 2]
        ((mrun [4, 4, 4] (minit 1 1 0))\<lparr>pc := (\<lambda>_. W_IDLE)(4 := L_RET, 2 := U_LOAD)\<rparr>)) 2) \<and>
   pc ((mrun [4, 4, 4, 4, 4] (minit 1 1 9))\<lparr>preempt := (\<lambda>_. True)\<rparr>) 4 = U_LOAD \<and>
   key ((mrun [4, 4, 4, 4, 4] (minit 1 1 9))\<lparr>preempt := (\<lambda>_. True)\<rparr>) = LOCKED \<and>
   locks ((mrun [4, 4, 4, 4, 4] (minit 1 1 9))\<lparr>preempt := (\<lambda>_. True)\<rparr>) 4 = 1 \<and>
   preempt ((mrun [4, 4, 4, 4, 4] (minit 1 1 9))\<lparr>preempt := (\<lambda>_. True)\<rparr>) 4 \<and>
   pc (mrun (replicate 3 4) ((mrun [4, 4, 4, 4, 4] (minit 1 1 9))\<lparr>preempt := (\<lambda>_. True)\<rparr>)) 4 = U_RET \<and>
   locks (mrun (replicate 3 4) ((mrun [4, 4, 4, 4, 4] (minit 1 1 9))\<lparr>preempt := (\<lambda>_. True)\<rparr>)) 4 = 0 \<and>
   stackguard0 ((mrun [4, 4, 4, 4, 4] (minit 1 1 9))\<lparr>preempt := (\<lambda>_. True)\<rparr>) 4 = 0 \<and>
   stackguard0 (mrun (replicate 3 4) ((mrun [4, 4, 4, 4, 4] (minit 1 1 9))\<lparr>preempt := (\<lambda>_. True)\<rparr>)) 4 = 9"
proof -
  define s where
    "s = (mrun [4, 4, 4] (minit 1 1 0))\<lparr>pc := (\<lambda>_. W_IDLE)(4 := L_RET, 2 := U_LOAD)\<rparr>"
  define s2 where
    "s2 = (mrun [4, 4, 4, 4, 4] (minit 1 1 9))\<lparr>preempt := (\<lambda>_. True)\<rparr>"
  have h: "pc s 2 = U_LOAD" "key s = LOCKED" "locks s 2 = 0" "key s \<noteq> 0"
    "pc (mrun [2, 4, 4, 2] s) 2 = U_DEC"
    "pc (mrun [2, 4, 4, 4, 4, 2, 2, 2] s) 2 = FAULT"
    unfolding s_def by (simp_all add: eval_simps)
  have h2: "pc s2 4 = U_LOAD" "key s2 = LOCKED" "locks s2 4 = 1" "preempt s2 4" "key s2 \<noteq> 0"
    "stackguard0 s2 4 = 0" "StackPreempt s2 = 9"
    unfolding s2_def by (simp_all add: eval_simps)
  note a = unlock_lock_count[OF h(1)]
  note b = unlock_lock_count[OF h2(1)]
  have a1: "pc (mrun (replicate 3 2) s) 2 = THROWN unlock_count_msg"
    using a h(2,3,4) by simp
  have a2: "pc (mstep 2 (mrun [2, 4, 4, 2] s)) 2 = THROWN unlock_count_msg"
    using a h(3,5) by simp
  have a3: "unlock_fatal (pc (mrun [2, 4, 4, 4, 4, 2, 2, 2] s) 2)"
    using a h(3,6) by simp
  have b1: "pc (mrun (replicate 3 4) s2) 4 = U_RET \<and> locks (mrun (replicate 3 4) s2) 4 = 0 \<and>
      stackguard0 (mrun (replicate 3 4) s2) 4 = 9"
    using b h2 by simp
  show ?thesis using h h2 a1 a2 a3 b1 unfolding s_def[symmetric] s2_def[symmetric] by simp
qed

text \<open>
  C8 as stated fails on a zero-valued mutex: a thread with lock count 0 that calls
  \<^verbatim>\<open>runtime.unlock\<close> reads \<open>mp->nextwaitm\<close> through \<open>mp = nil\<close> at line 107 and
  stops there; it never reaches the lock count of line 115, which stays 0.
\<close>

theorem unlock_of_zero_mutex_faults:
  "key ((minit 1 1 0)\<lparr>pc := (\<lambda>_. W_IDLE)(2 := U_LOAD)\<rparr>) = 0 \<and>
   locks ((minit 1 1 0)\<lparr>pc := (\<lambda>_. W_IDLE)(2 := U_LOAD)\<rparr>) 2 = 0 \<and>
   pc (mrun [2, 2] ((minit 1 1 0)\<lparr>pc := (\<lambda>_. W_IDLE)(2 := U_LOAD)\<rparr>)) 2 = FAULT \<and>
   locks (mrun [2, 2] ((minit 1 1 0)\<lparr>pc := (\<lambda>_. W_IDLE)(2 := U_LOAD)\<rparr>)) 2 = 0 \<and>
   mstep 2 (mrun [2, 2] ((minit 1 1 0)\<lparr>pc := (\<lambda>_. W_IDLE)(2 := U_LOAD)\<rparr>)) =
     mrun [2, 2] ((minit 1 1 0)\<lparr>pc := (\<lambda>_. W_IDLE)(2 := U_LOAD)\<rparr>)"
  by (simp add: eval_simps)
section \<open>Notes: wakeup, registration, cancellation and timeout\<close>

lemma nrun_Nil: "nrun [] s = s"
  by (simp add: nrun_def)

lemma nrun_Cons: "nrun (a # as) s = nrun as (nstep a s)"
  by (simp add: nrun_def)


lemma nrun_snoc: "nrun (xs @ [a]) s = nstep a (nrun xs s)"
  by (simp add: nrun_def)

lemmas nstep_simps = nstep_def ngoto_def nthrow_def semasleep_def nsemawakeup_def nanotime_def
  ensure_sema_def timed_park_result_def cancel_park_result_def Let_def

lemmas nsolo_simps = replicate_num nrun_Nil nrun_Cons nstep_simps

lemma npc_other: "a \<noteq> Run t \<Longrightarrow> a \<noteq> Intr t \<Longrightarrow> npc (nstep a s) t = npc s t"
proof (cases a)
  case (Run u)
  assume "a \<noteq> Run t"
  then have "u \<noteq> t" using Run by simp
  then show ?thesis using Run
    by (cases "npc s u") (auto simp: nstep_simps split: option.splits if_splits)
next
  case (Intr u)
  assume "a \<noteq> Intr t"
  then have "u \<noteq> t" using Intr by simp
  then show ?thesis using Intr
    by (cases "npc s u") (auto simp: nstep_simps split: option.splits if_splits)
next
  case (Tick d)
  then show ?thesis by (simp add: nstep_def)
qed

subsection \<open>notewakeup\<close>

lemma notewakeup_solo:
  assumes "npc s t = NW_LOAD"
  shows "nrun [Run t, Run t] s =
     (let s1 = s\<lparr>nkey := LOCKED, nmp := (nmp s)(t := nkey s)\<rparr>
      in if nkey s = 0 then ngoto t NW_RET s1
         else if nkey s = LOCKED then nthrow t ''notewakeup - double wakeup'' s1
         else ngoto t NW_WAKE s1)"
  using assms by (simp add: nsolo_simps)

lemma notewakeup_solo_wake:
  assumes "npc s t = NW_LOAD" "nkey s \<noteq> 0" "nkey s \<noteq> LOCKED"
  shows "nrun [Run t, Run t, Run t] s =
     s\<lparr>nkey := LOCKED, nmp := (nmp s)(t := nkey s),
       nsema := (nsema s)(nkey s := nsema s (nkey s) + 1),
       ntrace := NvSemaWakeup t (nkey s) # ntrace s,
       npc := (npc s)(t := NW_RET)\<rparr>"
  using assms by (simp add: nsolo_simps)

lemma nw_load_step:
  "npc s t = NW_LOAD \<Longrightarrow> nstep (Run t) s = ngoto t NW_CAS (s\<lparr>nmp := (nmp s)(t := nkey s)\<rparr>)"
  by (simp add: nstep_simps)

lemma nw_cas_step:
  "npc s t = NW_CAS \<Longrightarrow>
     (nkey s = nmp s t \<longrightarrow>
        nkey (nstep (Run t) s) = LOCKED \<and>
        npc (nstep (Run t) s) t =
          (if nmp s t = 0 then NW_RET
           else if nmp s t = LOCKED then N_THROWN ''notewakeup - double wakeup''
           else NW_WAKE) \<and>
        nmp (nstep (Run t) s) t = nmp s t \<and>
        nsema (nstep (Run t) s) = nsema s \<and>
        ntrace (nstep (Run t) s) = ntrace s) \<and>
     (nkey s \<noteq> nmp s t \<longrightarrow> nstep (Run t) s = ngoto t NW_LOAD s)"
  by (simp add: nstep_simps)

lemma nw_wake_step:
  "npc s t = NW_WAKE \<Longrightarrow>
     npc (nstep (Run t) s) t = NW_RET \<and>
     nkey (nstep (Run t) s) = nkey s \<and>
     nsema (nstep (Run t) s) = (nsema s)(nmp s t := nsema s (nmp s t) + 1) \<and>
     ntrace (nstep (Run t) s) = NvSemaWakeup t (nmp s t) # ntrace s"
  by (simp add: nstep_simps)

lemma nw_ret_step: "npc s t = NW_RET \<Longrightarrow> nstep (Run t) s = s"
  by (simp add: nstep_simps)

lemma wakeup_done_step: "wakeup_done (npc s t) \<Longrightarrow> wakeup_done (npc (nstep a s) t)"
proof (cases "a = Run t \<or> a = Intr t")
  case True
  assume "wakeup_done (npc s t)"
  then show ?thesis using True by (cases "npc s t") (auto simp: nstep_simps)
next
  case False
  assume "wakeup_done (npc s t)"
  then show ?thesis using False by (simp add: npc_other)
qed

lemma wakeup_done_run: "wakeup_done (npc s t) \<Longrightarrow> wakeup_done (npc (nrun sched s) t)"
  by (induction sched arbitrary: s) (simp_all add: nrun_Nil nrun_Cons wakeup_done_step)

lemma waker_intr: "waker_pc (npc s t) \<Longrightarrow> nstep (Intr t) s = nstep (Run t) s"
  by (cases "npc s t") (simp_all add: nstep_def)

text \<open>
  C3.  One step of \<^verbatim>\<open>runtime.notewakeup\<close> writes the note: the compare-and-swap of
  line 135, when it succeeds; it writes LOCKED.  The load before it, a failed
  compare-and-swap (which only sends the thread back to the load), the \<^verbatim>\<open>semawakeup\<close>
  and the return leave the note as it is, and once the swap has succeeded the call never
  comes back to it, whatever the schedule.  In every state the successful swap is followed
  by the case analysis on the value \<open>mp\<close> it replaced: nil, and the call returns with
  no semaphore touched and no \<^verbatim>\<open>semawakeup\<close>; LOCKED, and the thread throws
  \<^verbatim>\<open>notewakeup - double wakeup\<close>, again with no semaphore touched; any other value, and
  the next step is one \<^verbatim>\<open>semawakeup(mp)\<close>, which adds one to the semaphore of \<open>mp\<close>
  and to no other, and then the call returns.  When nobody else moves, the call started
  on a note holding \<open>k\<close> does just that for \<open>mp = k\<close>, in two or three steps.
\<close>

theorem notewakeup_cases:
  "(npc s t = NW_LOAD \<longrightarrow>
      nkey (nrun [Run t, Run t] s) = LOCKED \<and>
      (nkey s = 0 \<longrightarrow>
         npc (nrun [Run t, Run t] s) t = NW_RET \<and>
         nsema (nrun [Run t, Run t] s) = nsema s \<and>
         ntrace (nrun [Run t, Run t] s) = ntrace s) \<and>
      (nkey s = LOCKED \<longrightarrow>
         npc (nrun [Run t, Run t] s) t = N_THROWN ''notewakeup - double wakeup'' \<and>
         nsema (nrun [Run t, Run t] s) = nsema s \<and>
         ntrace (nrun [Run t, Run t] s) = ntrace s) \<and>
      (nkey s \<noteq> 0 \<and> nkey s \<noteq> LOCKED \<longrightarrow>
         npc (nrun [Run t, Run t] s) t = NW_WAKE \<and>
         npc (nrun [Run t, Run t, Run t] s) t = NW_RET \<and>
         nkey (nrun [Run t, Run t, Run t] s) = LOCKED \<and>
         nsema (nrun [Run t, Run t, Run t] s) = (nsema s)(nkey s := nsema s (nkey s) + 1) \<and>
         ntrace (nrun [Run t, Run t, Run t] s) = NvSemaWakeup t (nkey s) # ntrace s)) \<and>
   (npc s t = NW_CAS \<longrightarrow>
      (nkey s = nmp s t \<longrightarrow>
         nkey (nstep (Run t) s) = LOCKED \<and>
         npc (nstep (Run t) s) t =
           (if nmp s t = 0 then NW_RET
            else if nmp s t = LOCKED then N_THROWN ''notewakeup - double wakeup''
            else NW_WAKE) \<and>
         nmp (nstep (Run t) s) t = nmp s t \<and>
         nsema (nstep (Run t) s) = nsema s \<and>
         ntrace (nstep (Run t) s) = ntrace s) \<and>
      (nkey s \<noteq> nmp s t \<longrightarrow> nstep (Run t) s = ngoto t NW_LOAD s)) \<and>
   (npc s t = NW_WAKE \<longrightarrow>
      npc (nstep (Run t) s) t = NW_RET \<and>
      nkey (nstep (Run t) s) = nkey s \<and>
      nsema (nstep (Run t) s) = (nsema s)(nmp s t := nsema s (nmp s t) + 1) \<and>
      ntrace (nstep (Run t) s) = NvSemaWakeup t (nmp s t) # ntrace s) \<and>
   (npc s t = NW_LOAD \<longrightarrow>
      nstep (Run t) s = ngoto t NW_CAS (s\<lparr>nmp := (nmp s)(t := nkey s)\<rparr>)) \<and>
   (npc s t = NW_RET \<longrightarrow> nstep (Run t) s = s) \<and>
   (wakeup_done (npc s t) \<longrightarrow> (\<forall>sched. wakeup_done (npc (nrun sched s) t))) \<and>
   (waker_pc (npc s t) \<longrightarrow> nstep (Intr t) s = nstep (Run t) s)"
proof -
  have a: "(npc s t = NW_LOAD \<longrightarrow>
      nkey (nrun [Run t, Run t] s) = LOCKED \<and>
      (nkey s = 0 \<longrightarrow>
         npc (nrun [Run t, Run t] s) t = NW_RET \<and>
         nsema (nrun [Run t, Run t] s) = nsema s \<and>
         ntrace (nrun [Run t, Run t] s) = ntrace s) \<and>
      (nkey s = LOCKED \<longrightarrow>
         npc (nrun [Run t, Run t] s) t = N_THROWN ''notewakeup - double wakeup'' \<and>
         nsema (nrun [Run t, Run t] s) = nsema s \<and>
         ntrace (nrun [Run t, Run t] s) = ntrace s) \<and>
      (nkey s \<noteq> 0 \<and> nkey s \<noteq> LOCKED \<longrightarrow>
         npc (nrun [Run t, Run t] s) t = NW_WAKE \<and>
         npc (nrun [Run t, Run t, Run t] s) t = NW_RET \<and>
         nkey (nrun [Run t, Run t, Run t] s) = LOCKED \<and>
         nsema (nrun [Run t, Run t, Run t] s) = (nsema s)(nkey s := nsema s (nkey s) + 1) \<and>
         ntrace (nrun [Run t, Run t, Run t] s) = NvSemaWakeup t (nkey s) # ntrace s))"
  proof
    assume p: "npc s t = NW_LOAD"
    have w: "nkey s \<noteq> 0 \<and> nkey s \<noteq> LOCKED \<longrightarrow>
         npc (nrun [Run t, Run t, Run t] s) t = NW_RET \<and>
         nkey (nrun [Run t, Run t, Run t] s) = LOCKED \<and>
         nsema (nrun [Run t, Run t, Run t] s) = (nsema s)(nkey s := nsema s (nkey s) + 1) \<and>
         ntrace (nrun [Run t, Run t, Run t] s) = NvSemaWakeup t (nkey s) # ntrace s"
      using notewakeup_solo_wake[OF p] by simp
    show "nkey (nrun [Run t, Run t] s) = LOCKED \<and>
      (nkey s = 0 \<longrightarrow>
         npc (nrun [Run t, Run t] s) t = NW_RET \<and>
         nsema (nrun [Run t, Run t] s) = nsema s \<and>
         ntrace (nrun [Run t, Run t] s) = ntrace s) \<and>
      (nkey s = LOCKED \<longrightarrow>
         npc (nrun [Run t, Run t] s) t = N_THROWN ''notewakeup - double wakeup'' \<and>
         nsema (nrun [Run t, Run t] s) = nsema s \<and>
         ntrace (nrun [Run t, Run t] s) = ntrace s) \<and>
      (nkey s \<noteq> 0 \<and> nkey s \<noteq> LOCKED \<longrightarrow>
         npc (nrun [Run t, Run t] s) t = NW_WAKE \<and>
         npc (nrun [Run t, Run t, Run t] s) t = NW_RET \<and>
         nkey (nrun [Run t, Run t, Run t] s) = LOCKED \<and>
         nsema (nrun [Run t, Run t, Run t] s) = (nsema s)(nkey s := nsema s (nkey s) + 1) \<and>
         ntrace (nrun [Run t, Run t, Run t] s) = NvSemaWakeup t (nkey s) # ntrace s)"
      using w unfolding notewakeup_solo[OF p]
      by (simp add: Let_def ngoto_def nthrow_def LOCKED_def)
  qed
  have b: "(npc s t = NW_CAS \<longrightarrow>
      (nkey s = nmp s t \<longrightarrow>
         nkey (nstep (Run t) s) = LOCKED \<and>
         npc (nstep (Run t) s) t =
           (if nmp s t = 0 then NW_RET
            else if nmp s t = LOCKED then N_THROWN ''notewakeup - double wakeup''
            else NW_WAKE) \<and>
         nmp (nstep (Run t) s) t = nmp s t \<and>
         nsema (nstep (Run t) s) = nsema s \<and>
         ntrace (nstep (Run t) s) = ntrace s) \<and>
      (nkey s \<noteq> nmp s t \<longrightarrow> nstep (Run t) s = ngoto t NW_LOAD s))"
    using nw_cas_step[of s t] by blast
  have c: "(npc s t = NW_WAKE \<longrightarrow>
      npc (nstep (Run t) s) t = NW_RET \<and>
      nkey (nstep (Run t) s) = nkey s \<and>
      nsema (nstep (Run t) s) = (nsema s)(nmp s t := nsema s (nmp s t) + 1) \<and>
      ntrace (nstep (Run t) s) = NvSemaWakeup t (nmp s t) # ntrace s)"
    using nw_wake_step[of s t] by blast
  have d: "(npc s t = NW_LOAD \<longrightarrow>
      nstep (Run t) s = ngoto t NW_CAS (s\<lparr>nmp := (nmp s)(t := nkey s)\<rparr>))"
    using nw_load_step[of s t] by blast
  have e: "(npc s t = NW_RET \<longrightarrow> nstep (Run t) s = s)"
    using nw_ret_step[of s t] by blast
  have f: "(wakeup_done (npc s t) \<longrightarrow> (\<forall>sched. wakeup_done (npc (nrun sched s) t)))"
    using wakeup_done_run[of s t] by blast
  have g: "(waker_pc (npc s t) \<longrightarrow> nstep (Intr t) s = nstep (Run t) s)"
    using waker_intr[of s t] by blast
  show ?thesis by (intro conjI a b c d e f g)
qed

theorem notewakeup_cases_witness:
  "npc ((ninit 0)\<lparr>nkey := 4, npc := (\<lambda>_. N_IDLE)(2 := NW_LOAD)\<rparr>) 2 = NW_LOAD \<and>
   nkey (nrun [Run 2, Run 2, Run 2] ((ninit 0)\<lparr>nkey := 4, npc := (\<lambda>_. N_IDLE)(2 := NW_LOAD)\<rparr>))
     = LOCKED \<and>
   npc (nrun [Run 2, Run 2, Run 2] ((ninit 0)\<lparr>nkey := 4, npc := (\<lambda>_. N_IDLE)(2 := NW_LOAD)\<rparr>)) 2
     = NW_RET \<and>
   nsema (nrun [Run 2, Run 2, Run 2] ((ninit 0)\<lparr>nkey := 4, npc := (\<lambda>_. N_IDLE)(2 := NW_LOAD)\<rparr>)) 4
     = 1 \<and>
   nsema (nrun [Run 2, Run 2, Run 2] ((ninit 0)\<lparr>nkey := 4, npc := (\<lambda>_. N_IDLE)(2 := NW_LOAD)\<rparr>)) 6
     = 0 \<and>
   ntrace (nrun [Run 2, Run 2, Run 2] ((ninit 0)\<lparr>nkey := 4, npc := (\<lambda>_. N_IDLE)(2 := NW_LOAD)\<rparr>))
     = [NvSemaWakeup 2 4] \<and>
   npc (nrun [Run 2, Run 2] ((ninit 0)\<lparr>nkey := LOCKED, npc := (\<lambda>_. N_IDLE)(2 := NW_LOAD)\<rparr>)) 2
     = N_THROWN ''notewakeup - double wakeup'' \<and>
   npc (nrun [Run 2, Run 2] ((ninit 0)\<lparr>npc := (\<lambda>_. N_IDLE)(2 := NW_LOAD)\<rparr>)) 2 = NW_RET \<and>
   nkey (nrun [Run 2, Run 2] ((ninit 0)\<lparr>npc := (\<lambda>_. N_IDLE)(2 := NW_LOAD)\<rparr>)) = LOCKED \<and>
   ntrace (nrun [Run 2, Run 2] ((ninit 0)\<lparr>npc := (\<lambda>_. N_IDLE)(2 := NW_LOAD)\<rparr>)) = []"
proof -
  define s where "s = (ninit 0)\<lparr>nkey := 4, npc := (\<lambda>_. N_IDLE)(2 := NW_LOAD)\<rparr>"
  define s1 where "s1 = (ninit 0)\<lparr>nkey := LOCKED, npc := (\<lambda>_. N_IDLE)(2 := NW_LOAD)\<rparr>"
  define s0 where "s0 = (ninit 0)\<lparr>npc := (\<lambda>_. N_IDLE)(2 := NW_LOAD)\<rparr>"
  have h: "npc s 2 = NW_LOAD" "nkey s = 4" "nkey s \<noteq> 0" "nkey s \<noteq> LOCKED" "nsema s 4 = 0"
    "nsema s 6 = 0" "ntrace s = []"
    by (simp_all add: s_def ninit_def LOCKED_def)
  have h1: "npc s1 2 = NW_LOAD" "nkey s1 = LOCKED"
    by (simp_all add: s1_def ninit_def)
  have h0: "npc s0 2 = NW_LOAD" "nkey s0 = 0" "ntrace s0 = []"
    by (simp_all add: s0_def ninit_def)
  have "nkey (nrun [Run 2, Run 2, Run 2] s) = LOCKED \<and>
      npc (nrun [Run 2, Run 2, Run 2] s) 2 = NW_RET \<and>
      nsema (nrun [Run 2, Run 2, Run 2] s) 4 = 1 \<and>
      nsema (nrun [Run 2, Run 2, Run 2] s) 6 = 0 \<and>
      ntrace (nrun [Run 2, Run 2, Run 2] s) = [NvSemaWakeup 2 4]"
    using notewakeup_cases[of s 2] h by simp
  moreover have "npc (nrun [Run 2, Run 2] s1) 2 = N_THROWN ''notewakeup - double wakeup''"
    using notewakeup_cases[of s1 2] h1 by simp
  moreover have "npc (nrun [Run 2, Run 2] s0) 2 = NW_RET \<and> nkey (nrun [Run 2, Run 2] s0) = LOCKED \<and>
      ntrace (nrun [Run 2, Run 2] s0) = []"
    using notewakeup_cases[of s0 2] h0 by simp
  ultimately show ?thesis using h(1) unfolding s_def s1_def s0_def by simp
qed

subsection \<open>Registration\<close>











subsection \<open>One sleeper and one signaller\<close>































subsection \<open>The lone timed sleeper\<close>




lemma deadline_word: "(word_of_int a :: 64 word) + d = word_of_int (a + sint d)"
  by simp


































end
